theory Spec2Isabelle
  imports Complex_Main "HOL-Library.Word"
begin

unbundle bit_operations_syntax

section \<open>The message codec of \<open>ebh.cc\<close>\<close>

text \<open>
  The worker class \<open>EasterBugHunt\<close> of \<open>src/ebh.cc\<close> encodes a message in three
  stages (\<open>duffs_device\<close>, \<open>xor_head_with_tail\<close>, \<open>base64encode\<close>) and decodes it
  with \<open>base64decode\<close>, \<open>xor_head_with_tail\<close>, \<open>duffs_device\<close>. Each member
  function is embedded below as a HOL function on the bytes of the \<open>std::string\<close> it
  works on.

  The source text is not accepted by a C++ compiler as it stands, so the embedding
  reads every statement the way it is written and says where the text leaves a choice:
  \<^item> the local variable \<open>xor\<close> of \<open>xor_head_with_tail\<close> is called \<open>xor'\<close>, and the
    comma missing between the two parameters of that function is read as present;
  \<^item> the decoding branch of \<open>xor_head_with_tail\<close> has one closing brace more than
    opening ones; the blocks are taken as the indentation shows them;
  \<^item> \<open>base64encode\<close> uses a variable \<open>s2\<close> that it never declares; its value is a
    parameter of the embedding;
  \<^item> nothing calls \<open>init_base64table\<close>, so the table is whatever the state holds:
    every general statement below is about an arbitrary table.

  Conventions of the embedding.
  \<^item> A \<open>char\<close> or \<open>unsigned char\<close> is an \<open>8 word\<close>; a \<open>std::string\<close> is the list of its
    \<open>size()\<close> bytes (the terminator is not part of the list).
  \<^item> An \<open>int\<close> that holds a length or a bit count is an unbounded \<open>int\<close>: the message is
    one command line argument, far below the 2^31 / 9 bytes at which \<open>len * 9\<close> would
    leave the range of a 32-bit \<open>int\<close>.
  \<^item> Every way in which the C++ can stop without a result is a value of \<open>error\<close>.
\<close>

subsection \<open>Bytes, strings and their failures\<close>

type_synonym byte = "8 word"
type_synonym cstring = "byte list"

datatype error =
    UndefinedBehaviour  \<comment> \<open>\<open>operator[]\<close> beyond the string, a write to its terminator, \<open>back()\<close> of an empty string\<close>
  | out_of_range        \<comment> \<open>\<open>std::out_of_range\<close>, thrown by \<open>substr(pos)\<close> when \<open>pos > size()\<close>\<close>
  | length_error        \<comment> \<open>\<open>std::length_error\<close>, thrown by \<open>resize\<close> beyond \<open>max_size()\<close>\<close>

text \<open>
  Reading \<open>s[pos]\<close>: a byte of the string for \<open>pos < size()\<close>, the terminator \<open>0\<close> for
  \<open>pos = size()\<close>, undefined beyond.
\<close>

definition at_read :: "cstring \<Rightarrow> nat \<Rightarrow> error + byte" where
  "at_read s pos =
     (if pos < length s then Inr (s ! pos)
      else if pos = length s then Inr 0
      else Inl UndefinedBehaviour)"

text \<open>
  Storing through \<open>s[pos]\<close>: allowed for \<open>pos < size()\<close>; at \<open>pos = size()\<close> only the
  value \<open>0\<close> may be stored into the terminator; everything else is undefined.
\<close>

definition at_write :: "cstring \<Rightarrow> nat \<Rightarrow> byte \<Rightarrow> error + cstring" where
  "at_write s pos c =
     (if pos < length s then Inr (s[pos := c])
      else if pos = length s \<and> c = 0 then Inr s
      else Inl UndefinedBehaviour)"

text \<open>The compound assignment \<open>s[pos] ^= m\<close>: a read followed by a store.\<close>

definition at_xor :: "cstring \<Rightarrow> nat \<Rightarrow> byte \<Rightarrow> error + cstring" where
  "at_xor s pos m =
     (case at_read s pos of
        Inl e \<Rightarrow> Inl e
      | Inr c \<Rightarrow> at_write s pos (c XOR m))"

text \<open>\<open>s.substr(pos)\<close> throws when \<open>pos > size()\<close>.\<close>

definition substr :: "cstring \<Rightarrow> nat \<Rightarrow> error + cstring" where
  "substr s pos = (if pos > length s then Inl out_of_range else Inr (drop pos s))"

text \<open>
  \<open>s.resize(n, c)\<close> with the \<open>int\<close> argument converted to \<open>size_t\<close>: a negative \<open>n\<close>
  becomes a size beyond \<open>max_size()\<close> and throws.
\<close>

definition resize :: "cstring \<Rightarrow> int \<Rightarrow> byte \<Rightarrow> error + cstring" where
  "resize s n c =
     (if n < 0 then Inl length_error
      else Inr (take (nat n) s @ replicate (nat n - length s) c))"

text \<open>\<open>s.back()\<close> of an empty string is undefined.\<close>

definition string_back :: "cstring \<Rightarrow> error + byte" where
  "string_back s = (if s = [] then Inl UndefinedBehaviour else Inr (last s))"

text \<open>
  Integer promotion of an \<open>unsigned char\<close> to \<open>int\<close> for the shifts, and the conversion
  of the \<open>int\<close> result back to a byte.
\<close>

definition promote :: "byte \<Rightarrow> 32 word" where
  "promote b = ucast b"

definition narrow :: "32 word \<Rightarrow> byte" where
  "narrow w = ucast w"

subsection \<open>The worker's fields\<close>

text \<open>The fields \<open>message_\<close> and \<open>base64table_\<close>; a name cannot end with an underscore here.\<close>

record EasterBugHunt =
  message_' :: cstring
  base64table_' :: cstring

subsection \<open>First stage: \<open>duffs_device\<close>\<close>

definition kDuffsMask :: "32 word" where
  "kDuffsMask = 0x12345678"

text \<open>
  The four \<open>case\<close> labels inside the \<open>while\<close> loop are the entry points of the
  unrolled body. \<open>duffs_loop\<close> is the control flow from one label on: \<open>Case0\<close> is the
  loop head, where \<open>i < stop\<close> is tested; the other three labels fall through to the next
  statement without a test, and the closing brace after \<open>Case1\<close> leads back to the head.
\<close>

datatype label = Case0 | Case3 | Case2 | Case1

function duffs_loop ::
  "label \<Rightarrow> byte \<Rightarrow> byte \<Rightarrow> byte \<Rightarrow> byte \<Rightarrow> int \<Rightarrow> nat \<Rightarrow> cstring \<Rightarrow> error + cstring" where
  "duffs_loop Case0 m0 m1 m2 m3 stop i msg =
     (if int i < stop then
        (case at_xor msg i m0 of
           Inl e \<Rightarrow> Inl e
         | Inr msg' \<Rightarrow> duffs_loop Case3 m0 m1 m2 m3 stop (i + 1) msg')
      else Inr msg)"
| "duffs_loop Case3 m0 m1 m2 m3 stop i msg =
     (case at_xor msg i m1 of
        Inl e \<Rightarrow> Inl e
      | Inr msg' \<Rightarrow> duffs_loop Case2 m0 m1 m2 m3 stop (i + 1) msg')"
| "duffs_loop Case2 m0 m1 m2 m3 stop i msg =
     (case at_xor msg i m2 of
        Inl e \<Rightarrow> Inl e
      | Inr msg' \<Rightarrow> duffs_loop Case1 m0 m1 m2 m3 stop (i + 1) msg')"
| "duffs_loop Case1 m0 m1 m2 m3 stop i msg =
     (case at_xor msg i m3 of
        Inl e \<Rightarrow> Inl e
      | Inr msg' \<Rightarrow> duffs_loop Case0 m0 m1 m2 m3 stop (i + 1) msg')"
  by pat_completeness auto
termination
  by (relation "measure (\<lambda>(l, m0, m1, m2, m3, stop, i, msg).
        4 * nat (stop - int i) + (case l of Case0 \<Rightarrow> 0 | Case3 \<Rightarrow> 3 | Case2 \<Rightarrow> 2 | Case1 \<Rightarrow> 1))")
     auto

declare duffs_loop.simps [simp del]

text \<open>
  \<open>switch (remainder)\<close>: the label the switch jumps to. There is no \<open>default\<close>
  label, so a value without a \<open>case\<close> skips the whole statement.
\<close>

definition switch_label :: "int \<Rightarrow> label option" where
  "switch_label remainder =
     (if remainder = 0 then Some Case0
      else if remainder = 3 then Some Case3
      else if remainder = 2 then Some Case2
      else if remainder = 1 then Some Case1
      else None)"

definition duffs_device :: "32 word \<Rightarrow> cstring \<Rightarrow> error + cstring" where
  "duffs_device mask' msg =
     (let len = int (length msg);
          left_pad = len mod 4;
          right_pad = 4 - left_pad;
          m0 = narrow (signed_drop_bit 24 mask');
          m1 = narrow (signed_drop_bit 16 mask');
          m2 = narrow (signed_drop_bit 8 mask');
          m3 = narrow mask';
          remainder = len mod 4;
          i = nat left_pad;
          stop = len - right_pad
      in case switch_label remainder of
           None \<Rightarrow> Inr msg
         | Some entry \<Rightarrow> duffs_loop entry m0 m1 m2 m3 stop i msg)"

subsection \<open>Second stage: \<open>xor_head_with_tail\<close>\<close>

text \<open>
  \<open>static const int kPi = 3.145926535;\<close> The constant has type \<open>int\<close>, so the
  initialiser is converted by truncation.
\<close>

definition kPi :: int where
  "kPi = \<lfloor>3.145926535 :: real\<rfloor>"

text \<open>
  \<open>int xor = 2 * kPi * message[0];\<close> The \<open>char\<close> is promoted to \<open>int\<close>; it is read
  as a signed char here. Only the low eight bits of the product reach the message
  (\<open>tail[i] ^= xor\<close> stores a \<open>char\<close>), and they are the same for an unsigned char.
\<close>

definition xor_value :: "byte \<Rightarrow> int" where
  "xor_value c = 2 * kPi * sint c"

text \<open>
  The loop \<open>for (int i = from; i < to; ++i) s[i] ^= xor;\<close>, used with \<open>from = 0\<close>,
  \<open>to = tail_len\<close> when encoding and with the bounds \<open>1\<close> and \<open>1\<close> written in the
  source when decoding.
\<close>

function xor_loop :: "nat \<Rightarrow> int \<Rightarrow> int \<Rightarrow> cstring \<Rightarrow> error + cstring" where
  "xor_loop i to xor' s =
     (if int i < to then
        (case at_xor s i (word_of_int xor') of
           Inl e \<Rightarrow> Inl e
         | Inr s' \<Rightarrow> xor_loop (i + 1) to xor' s')
      else Inr s)"
  by pat_completeness auto
termination
  by (relation "measure (\<lambda>(i, to, xor', s). nat (to - int i))") auto

text \<open>The loop \<open>for (int i = 1; i < l; ++i) message[i] = tail[i-1];\<close>\<close>

function replace_tail :: "nat \<Rightarrow> int \<Rightarrow> cstring \<Rightarrow> cstring \<Rightarrow> error + cstring" where
  "replace_tail i l tail message =
     (if int i < l then
        (case at_read tail (i - 1) of
           Inl e \<Rightarrow> Inl e
         | Inr c \<Rightarrow>
            (case at_write message i c of
               Inl e \<Rightarrow> Inl e
             | Inr message' \<Rightarrow> replace_tail (i + 1) l tail message'))
      else Inr message)"
  by pat_completeness auto
termination
  by (relation "measure (\<lambda>(i, l, tail, message). nat (l - int i))") auto

text \<open>
  The function body, with the block structure that its indentation shows: the \<open>for\<close>
  loop of the decoding branch has a closing brace and no opening one, and the brace is
  read as the end of that loop. The guard of the early return is the comparison of the
  two literals \<open>1 == 0\<close> that the source has. In the decoding branch the inner
  declaration \<open>std::string tail\<close> hides the function's \<open>tail\<close>, which is still empty when
  the last loop reads it. The recursive call passes \<open>false\<close> in both branches.
\<close>

function xor_head_with_tail :: "cstring \<Rightarrow> bool \<Rightarrow> error + cstring" where
  "xor_head_with_tail message encoding =
     (let tail = [];
          l = int (length message)
      in if (1::int) = 0 then Inr message
         else
           (case at_read message 0 of
              Inl e \<Rightarrow> Inl e
            | Inr c \<Rightarrow>
               (let xor' = xor_value c
                in if encoding then
                     (case substr message 1 of
                        Inl e \<Rightarrow> Inl e
                      | Inr tail1 \<Rightarrow>
                         (case xor_head_with_tail tail1 False of
                            Inl e \<Rightarrow> Inl e
                          | Inr tail2 \<Rightarrow>
                             (case xor_loop 0 (int (length tail2)) xor' tail2 of
                                Inl e \<Rightarrow> Inl e
                              | Inr tail3 \<Rightarrow> replace_tail 1 l tail3 message)))
                   else
                     (case xor_loop 1 1 xor' message of
                        Inl e \<Rightarrow> Inl e
                      | Inr message1 \<Rightarrow>
                         (case substr message1 1 of
                            Inl e \<Rightarrow> Inl e
                          | Inr inner_tail \<Rightarrow>
                             (case xor_head_with_tail inner_tail False of
                                Inl e \<Rightarrow> Inl e
                              | Inr inner_tail' \<Rightarrow> replace_tail 1 l tail message1))))))"
  by pat_completeness auto
termination
  by (relation "measure (\<lambda>(message, encoding). length message)")
     (auto simp: substr_def split: if_splits)

declare xor_head_with_tail.simps [simp del]

subsection \<open>The table of printable letters: \<open>init_base64table\<close>\<close>

text \<open>
  The loop \<open>for (int c = first; c < limit; ++c) base64table_[i++] = c;\<close> It returns
  the index \<open>i\<close> together with the table.
\<close>

function fill_letters :: "int \<Rightarrow> int \<Rightarrow> nat \<Rightarrow> cstring \<Rightarrow> error + nat \<times> cstring" where
  "fill_letters c limit i tbl =
     (if c < limit then
        (case at_write tbl i (word_of_int c) of
           Inl e \<Rightarrow> Inl e
         | Inr tbl' \<Rightarrow> fill_letters (c + 1) limit (i + 1) tbl')
      else Inr (i, tbl))"
  by pat_completeness auto
termination
  by (relation "measure (\<lambda>(c, limit, i, tbl). nat (limit - c))") auto

text \<open>
  The character literals are their ASCII codes: \<open>'A' = 65\<close>, \<open>'Z' = 90\<close>, \<open>'a' = 97\<close>,
  \<open>'z' = 122\<close>, \<open>'0' = 48\<close>, \<open>'9' = 57\<close>, \<open>'+' = 43\<close>, \<open>'/' = 47\<close>, \<open>'=' = 61\<close>,
  \<open>'-' = 45\<close>.
\<close>

definition init_base64table :: "EasterBugHunt \<Rightarrow> error + EasterBugHunt" where
  "init_base64table st =
     (case resize (base64table_' st) 65 0 of
        Inl e \<Rightarrow> Inl e
      | Inr t0 \<Rightarrow>
         (case fill_letters 65 90 0 t0 of
            Inl e \<Rightarrow> Inl e
          | Inr (i1, t1) \<Rightarrow>
             (case fill_letters 97 122 i1 t1 of
                Inl e \<Rightarrow> Inl e
              | Inr (i2, t2) \<Rightarrow>
                 (case fill_letters 48 57 i2 t2 of
                    Inl e \<Rightarrow> Inl e
                  | Inr (i3, t3) \<Rightarrow>
                     (case at_write t3 i3 43 of
                        Inl e \<Rightarrow> Inl e
                      | Inr t4 \<Rightarrow>
                         (case at_write t4 (i3 + 1) 47 of
                            Inl e \<Rightarrow> Inl e
                          | Inr t5 \<Rightarrow>
                             (case at_write t5 (i3 + 2) 61 of
                                Inl e \<Rightarrow> Inl e
                              | Inr t6 \<Rightarrow> Inr (st\<lparr>base64table_' := t6\<rparr>))))))))"

subsection \<open>Third stage: \<open>base64encode\<close>\<close>

text \<open>
  The loop of \<open>base64encode\<close>. The source reads \<open>message_[si++]\<close> into \<open>s0\<close> and then
  \<open>message_[s0++]\<close> into \<open>s1\<close>: the second index is the value of the byte just read,
  and \<open>s0\<close> is incremented. The variable \<open>s2\<close> has no declaration in the source; the
  embedding takes its value in each round as a parameter (a function of the source
  index), so that whatever is proved holds for every value it could have. All four
  letters are looked up at \<open>d0\<close>, which after the first lookup holds a letter.
\<close>

function base64encode_loop ::
  "(nat \<Rightarrow> byte) \<Rightarrow> cstring \<Rightarrow> cstring \<Rightarrow> int \<Rightarrow> int \<Rightarrow> nat \<Rightarrow> cstring \<Rightarrow> error + cstring" where
  "base64encode_loop s2_at tbl src bits done' si dst =
     (if done' < bits then
        (case at_read src si of
           Inl e \<Rightarrow> Inl e
         | Inr s0 \<Rightarrow>
            (case at_read src (unat s0) of
               Inl e \<Rightarrow> Inl e
             | Inr s1 \<Rightarrow>
                (let s0' = s0 + 1;
                     s2 = s2_at si;
                     d0 = narrow (promote s0' AND 0x3F);
                     d1 = narrow ((drop_bit 6 (promote s0') OR push_bit 2 (promote s1)) AND 0x3E);
                     d2 = narrow ((drop_bit 4 (promote s1) OR push_bit 4 (promote s2)) AND 0x3F);
                     d3 = narrow (drop_bit 2 (promote s2))
                 in case at_read tbl (unat d0) of
                      Inl e \<Rightarrow> Inl e
                    | Inr d0' \<Rightarrow>
                       (case at_read tbl (unat d0') of
                          Inl e \<Rightarrow> Inl e
                        | Inr d1' \<Rightarrow>
                           (case at_read tbl (unat d0') of
                              Inl e \<Rightarrow> Inl e
                            | Inr d2' \<Rightarrow>
                               (case at_read tbl (unat d0') of
                                  Inl e \<Rightarrow> Inl e
                                | Inr d3' \<Rightarrow>
                                   base64encode_loop s2_at tbl src bits (done' + 24) (si + 1)
                                     (dst @ [d0', d1', d2', d3'])))))))
      else Inr dst)"
  by pat_completeness auto
termination
  by (relation "measure (\<lambda>(s2_at, tbl, src, bits, done', si, dst). nat (bits - done'))") auto

text \<open>The number of bits that \<open>base64encode\<close> computes for a message of \<open>len\<close> bytes.\<close>

definition encode_bits :: "int \<Rightarrow> int" where
  "encode_bits len = len * 9"

text \<open>
  \<open>(bits + 5) / 6\<close> has a non-negative dividend, so the truncating division of C++ is
  \<open>div\<close>.
\<close>

definition base64encode :: "(nat \<Rightarrow> byte) \<Rightarrow> EasterBugHunt \<Rightarrow> error + EasterBugHunt" where
  "base64encode s2_at st =
     (let len = int (length (message_' st));
          bits = encode_bits len;
          src = message_' st @ [0, 0, 0]
      in case base64encode_loop s2_at (base64table_' st) src bits 0 0 [] of
           Inl e \<Rightarrow> Inl e
         | Inr dst \<Rightarrow>
            (let dst_len = (bits + 5) div 6
             in case resize dst dst_len 0 of
                  Inl e \<Rightarrow> Inl e
                | Inr dst' \<Rightarrow> Inr (st\<lparr>message_' := dst'\<rparr>)))"

subsection \<open>Third stage, backwards: \<open>base64decode\<close>\<close>

text \<open>
  \<open>base64table_.find(c)\<close>: the position of the first \<open>c\<close>, or \<open>npos\<close> (here
  \<open>None\<close>) when there is none. The result is stored into an \<open>unsigned char\<close>, which
  keeps its low eight bits; \<open>npos\<close> is the largest \<open>size_t\<close>, with every bit set, and
  becomes 255.
\<close>

primrec find_from :: "cstring \<Rightarrow> byte \<Rightarrow> nat \<Rightarrow> nat option" where
  "find_from [] c pos = None"
| "find_from (x # xs) c pos = (if x = c then Some pos else find_from xs c (pos + 1))"

definition string_find :: "cstring \<Rightarrow> byte \<Rightarrow> nat option" where
  "string_find s c = find_from s c 0"

definition find_uchar :: "cstring \<Rightarrow> byte \<Rightarrow> byte" where
  "find_uchar s c = (case string_find s c of None \<Rightarrow> 255 | Some pos \<Rightarrow> of_nat pos)"

text \<open>
  The loop of \<open>base64decode\<close>: five characters are read in every round (\<open>s0\<close> to
  \<open>s4\<close>), four of them are looked up, and three bytes are appended.
\<close>

function base64decode_loop ::
  "cstring \<Rightarrow> cstring \<Rightarrow> int \<Rightarrow> int \<Rightarrow> nat \<Rightarrow> cstring \<Rightarrow> error + cstring" where
  "base64decode_loop tbl src bits done' si dst =
     (if done' < bits then
        (case at_read src si of
           Inl e \<Rightarrow> Inl e
         | Inr c0 \<Rightarrow>
            (case at_read src (si + 1) of
               Inl e \<Rightarrow> Inl e
             | Inr c1 \<Rightarrow>
                (case at_read src (si + 2) of
                   Inl e \<Rightarrow> Inl e
                 | Inr c2 \<Rightarrow>
                    (case at_read src (si + 3) of
                       Inl e \<Rightarrow> Inl e
                     | Inr c3 \<Rightarrow>
                        (case at_read src (si + 4) of
                           Inl e \<Rightarrow> Inl e
                         | Inr c4 \<Rightarrow>
                            (let s0 = find_uchar tbl c0;
                                 s1 = find_uchar tbl c1;
                                 s2 = find_uchar tbl c2;
                                 s3 = find_uchar tbl c3;
                                 d0 = narrow (drop_bit 0 (promote s0) OR push_bit 16 (promote s1));
                                 d1 = narrow (drop_bit 2 (promote s1) OR push_bit 4 (promote s2));
                                 d2 = narrow (drop_bit 4 (promote s2) OR push_bit 2 (promote s3))
                             in base64decode_loop tbl src bits (done' + 24) (si + 5)
                                  (dst @ [d0, d1, d2])))))))
      else Inr dst)"
  by pat_completeness auto
termination
  by (relation "measure (\<lambda>(tbl, src, bits, done', si, dst). nat (bits - done'))") auto

text \<open>
  After the loop: \<open>dst.resize(len)\<close>; the condition \<open>dst.back() == 0\<close> is evaluated
  and its \<open>if\<close> has the empty statement as its body; \<open>dst.resize(dst_len - 1)\<close> follows
  as a statement of its own.
\<close>

definition base64decode :: "EasterBugHunt \<Rightarrow> error + EasterBugHunt" where
  "base64decode st =
     (let len = int (length (message_' st));
          bits = len * 6;
          src = message_' st @ [45, 61, 61, 61]
      in case base64decode_loop (base64table_' st) src bits 0 0 [] of
           Inl e \<Rightarrow> Inl e
         | Inr dst \<Rightarrow>
            (let dst_len = (bits + 7) div 8
             in case resize dst len 0 of
                  Inl e \<Rightarrow> Inl e
                | Inr dst1 \<Rightarrow>
                   (case string_back dst1 of
                      Inl e \<Rightarrow> Inl e
                    | Inr b \<Rightarrow>
                       (let last_is_zero = (b = 0)
                        in case resize dst1 (dst_len - 1) 0 of
                             Inl e \<Rightarrow> Inl e
                           | Inr dst2 \<Rightarrow> Inr (st\<lparr>message_' := dst2\<rparr>)))))"

subsection \<open>The two directions: \<open>encode\<close> and \<open>decode\<close>\<close>

text \<open>
  Both end with \<open>LOG(message_)\<close>; the printed line is the \<open>message_\<close> of the state
  that is returned.
\<close>

definition encode :: "(nat \<Rightarrow> byte) \<Rightarrow> EasterBugHunt \<Rightarrow> error + EasterBugHunt" where
  "encode s2_at st =
     (case duffs_device kDuffsMask (message_' st) of
        Inl e \<Rightarrow> Inl e
      | Inr m1 \<Rightarrow>
         (case xor_head_with_tail m1 True of
            Inl e \<Rightarrow> Inl e
          | Inr m2 \<Rightarrow> base64encode s2_at (st\<lparr>message_' := m2\<rparr>)))"

definition decode :: "EasterBugHunt \<Rightarrow> error + EasterBugHunt" where
  "decode st =
     (case base64decode st of
        Inl e \<Rightarrow> Inl e
      | Inr st1 \<Rightarrow>
         (case xor_head_with_tail (message_' st1) False of
            Inl e \<Rightarrow> Inl e
          | Inr m1 \<Rightarrow>
             (case duffs_device kDuffsMask m1 of
                Inl e \<Rightarrow> Inl e
              | Inr m2 \<Rightarrow> Inr (st1\<lparr>message_' := m2\<rparr>))))"

subsection \<open>Concrete inputs\<close>

text \<open>
  The worker as \<open>main\<close> constructs it (both strings empty); the table that
  \<open>init_base64table\<close> builds from it (the letters \<open>A\<close> to \<open>Y\<close>, \<open>a\<close> to \<open>y\<close>,
  the digits \<open>0\<close> to \<open>8\<close>, then \<open>+\<close>, \<open>/\<close>, \<open>=\<close> and three bytes left at 0);
  the first test pattern of the header comment, \<open>Hello, World!\<close>; and a choice for the
  undeclared \<open>s2\<close>.
\<close>

definition fresh :: EasterBugHunt where
  "fresh = \<lparr>message_' = [], base64table_' = []\<rparr>"

definition built_table :: cstring where
  "built_table =
     map of_nat ([65..<90] @ [97..<122] @ [48..<57]) @ [43, 47, 61, 0, 0, 0]"

definition hello_world :: cstring where
  "hello_world = [72, 101, 108, 108, 111, 44, 32, 87, 111, 114, 108, 100, 33]"

definition s2_zero :: "nat \<Rightarrow> byte" where
  "s2_zero si = 0"

text \<open>
  Inputs of the two base64 functions, each with the built table: the digit \<open>1\<close> 46
  times and what \<open>base64encode\<close> returns for it, the four characters \<open>!!!!\<close>, and
  the three characters \<open>BBB\<close>.
\<close>

definition digits_46 :: EasterBugHunt where
  "digits_46 = \<lparr>message_' = replicate 46 49, base64table_' = built_table\<rparr>"

definition digits_46_encoded :: EasterBugHunt where
  "digits_46_encoded =
     \<lparr>message_' = concat (replicate 17 [48, 120, 120, 120]) @ [48],
      base64table_' = built_table\<rparr>"

definition bangs :: EasterBugHunt where
  "bangs = \<lparr>message_' = [33, 33, 33, 33], base64table_' = built_table\<rparr>"

definition letters_BBB :: EasterBugHunt where
  "letters_BBB = \<lparr>message_' = [66, 66, 66], base64table_' = built_table\<rparr>"

subsection \<open>The mask bytes and the specification's MaskTransform\<close>

text \<open>Four bytes taken in turn: the byte that position \<open>n\<close> of the cycle selects.\<close>

definition cycle4 :: "byte \<Rightarrow> byte \<Rightarrow> byte \<Rightarrow> byte \<Rightarrow> nat \<Rightarrow> byte" where
  "cycle4 m0 m1 m2 m3 n =
     (if n mod 4 = 0 then m0 else if n mod 4 = 1 then m1 else if n mod 4 = 2 then m2 else m3)"

text \<open>
  The mask byte \<open>m\<^sub>k\<close>, with the index taken modulo 4, computed as \<open>duffs_device\<close>
  computes \<open>m0\<close> to \<open>m3\<close>.
\<close>

definition mask_byte :: "32 word \<Rightarrow> nat \<Rightarrow> byte" where
  "mask_byte mask' k =
     (if k mod 4 = 0 then narrow (signed_drop_bit 24 mask')
      else if k mod 4 = 1 then narrow (signed_drop_bit 16 mask')
      else if k mod 4 = 2 then narrow (signed_drop_bit 8 mask')
      else narrow mask')"

text \<open>
  MaskTransform in the words of the specification (section 4.1), to compare
  \<open>duffs_device\<close> with: \<open>leadPad = L mod 4\<close>, \<open>trailPad = 4 - leadPad\<close> when
  \<open>leadPad \<noteq> 0\<close> and \<open>0\<close> otherwise, the message unmodified when
  \<open>L < leadPad + trailPad\<close>, and otherwise the byte at every index \<open>i\<close> from
  \<open>leadPad\<close> to \<open>L - trailPad - 1\<close> combined with the mask byte of index
  \<open>(i - leadPad) mod 4\<close>.
\<close>

definition spec_MaskTransform :: "cstring \<Rightarrow> 32 word \<Rightarrow> cstring" where
  "spec_MaskTransform message mask' =
     (let L = length message;
          leadPad = L mod 4;
          trailPad = (if leadPad \<noteq> 0 then 4 - leadPad else 0)
      in if L < leadPad + trailPad then message
         else map (\<lambda>i. if leadPad \<le> i \<and> i + trailPad < L
                         then message ! i XOR mask_byte mask' ((i - leadPad) mod 4)
                         else message ! i) [0..<L])"

subsection \<open>The specification's diffusion key\<close>

text \<open>
  The diffusion key in the words of the specification (section 4.2):
  \<open>k = floor (2 \<pi> h) mod 256\<close>, for the head byte \<open>h\<close> as a number from 0 to 255.
\<close>

definition spec_diffusion_key :: "byte \<Rightarrow> int" where
  "spec_diffusion_key h = \<lfloor>2 * pi * real (unat h)\<rfloor> mod 256"

subsection \<open>The specification's failures of decoding\<close>

text \<open>
  The two conditions under which the specification (section 4.3) makes decoding fail:
  a character that is not in the alphabet with its padding sentinel
  (\<open>InvalidCharacter\<close>), and a length that is not a positive multiple of 4
  (\<open>InvalidLength\<close>).
\<close>

definition spec_InvalidCharacter :: "cstring \<Rightarrow> cstring \<Rightarrow> bool" where
  "spec_InvalidCharacter alphabet input = list_ex (\<lambda>c. \<not> List.member alphabet c) input"

definition spec_InvalidLength :: "cstring \<Rightarrow> bool" where
  "spec_InvalidLength input = (\<not> (0 < length input \<and> length input mod 4 = 0))"

section \<open>Properties\<close>

subsection \<open>Basic facts\<close>

lemma kPi_val: "kPi = 3"
  by (simp add: kPi_def)

lemma at_xor_inside: "pos < length s \<Longrightarrow> at_xor s pos m = Inr (s[pos := s ! pos XOR m])"
  by (simp add: at_xor_def at_read_def at_write_def)

lemma at_xor_terminator:
  "m \<noteq> 0 \<Longrightarrow> at_xor s (length s) m = Inl UndefinedBehaviour"
  by (simp add: at_xor_def at_read_def at_write_def)

lemma init_base64table_fresh:
  "init_base64table fresh = Inr (fresh\<lparr>base64table_' := built_table\<rparr>)"
  by code_simp

subsection \<open>What \<open>duffs_device\<close> computes\<close>

text \<open>
  One round of the unrolled loop, the loop entered at its head, and the loop entered at
  each of the three inner labels; then \<open>duffs_device\<close> itself on a message of length 0
  or at least 4, on which every index it uses lies inside the message.
\<close>

lemma cycle4_simps:
  "cycle4 m0 m1 m2 m3 0 = m0" "cycle4 m0 m1 m2 m3 (Suc 0) = m1"
  "cycle4 m0 m1 m2 m3 2 = m2" "cycle4 m0 m1 m2 m3 3 = m3"
  "cycle4 m0 m1 m2 m3 (Suc (Suc 0)) = m2" "cycle4 m0 m1 m2 m3 (Suc (Suc (Suc 0))) = m3"
  "cycle4 m0 m1 m2 m3 (n + 4) = cycle4 m0 m1 m2 m3 n"
  by (simp_all add: cycle4_def)

lemma duffs_loop_round:
  assumes "int i < stop" and "i + 3 < length msg"
  shows "\<exists>msg4. duffs_loop Case0 m0 m1 m2 m3 stop i msg =
                  duffs_loop Case0 m0 m1 m2 m3 stop (i + 4) msg4 \<and>
           length msg4 = length msg \<and>
           (\<forall>j<length msg. msg4 ! j =
              (if i \<le> j \<and> j < i + 4 then msg ! j XOR cycle4 m0 m1 m2 m3 (j - i) else msg ! j))"
proof -
  define msg1 where "msg1 = msg[i := msg ! i XOR m0]"
  define msg2 where "msg2 = msg1[i + 1 := msg1 ! (i + 1) XOR m1]"
  define msg3 where "msg3 = msg2[i + 1 + 1 := msg2 ! (i + 1 + 1) XOR m2]"
  define msg4 where "msg4 = msg3[i + 1 + 1 + 1 := msg3 ! (i + 1 + 1 + 1) XOR m3]"
  have len: "length msg1 = length msg" "length msg2 = length msg"
    "length msg3 = length msg" "length msg4 = length msg"
    by (simp_all add: msg1_def msg2_def msg3_def msg4_def)
  have x0: "at_xor msg i m0 = Inr msg1"
    using assms(2) by (simp add: at_xor_inside msg1_def)
  have x1: "at_xor msg1 (i + 1) m1 = Inr msg2"
    using assms(2) len by (simp add: at_xor_inside msg2_def)
  have x2: "at_xor msg2 (i + 1 + 1) m2 = Inr msg3"
    using assms(2) len by (simp add: at_xor_inside msg3_def)
  have x3: "at_xor msg3 (i + 1 + 1 + 1) m3 = Inr msg4"
    using assms(2) len by (simp add: at_xor_inside msg4_def)
  have i4: "i + 1 + 1 + 1 + 1 = i + 4"
    by simp
  have "duffs_loop Case0 m0 m1 m2 m3 stop i msg =
        duffs_loop Case3 m0 m1 m2 m3 stop (i + 1) msg1"
    by (simp only: duffs_loop.simps(1) [of m0 m1 m2 m3 stop i msg] assms(1) if_True x0 sum.case)
  also have "\<dots> = duffs_loop Case2 m0 m1 m2 m3 stop (i + 1 + 1) msg2"
    by (simp only: duffs_loop.simps(2) [of m0 m1 m2 m3 stop "i + 1" msg1] x1 sum.case)
  also have "\<dots> = duffs_loop Case1 m0 m1 m2 m3 stop (i + 1 + 1 + 1) msg3"
    by (simp only: duffs_loop.simps(3) [of m0 m1 m2 m3 stop "i + 1 + 1" msg2] x2 sum.case)
  also have "\<dots> = duffs_loop Case0 m0 m1 m2 m3 stop (i + 1 + 1 + 1 + 1) msg4"
    by (simp only: duffs_loop.simps(4) [of m0 m1 m2 m3 stop "i + 1 + 1 + 1" msg3] x3 sum.case)
  finally have run: "duffs_loop Case0 m0 m1 m2 m3 stop i msg =
                     duffs_loop Case0 m0 m1 m2 m3 stop (i + 4) msg4"
    by (simp only: i4)
  have "msg4 ! j =
          (if i \<le> j \<and> j < i + 4 then msg ! j XOR cycle4 m0 m1 m2 m3 (j - i) else msg ! j)"
    if j: "j < length msg" for j
  proof -
    consider "j < i" | "j = i" | "j = i + 1" | "j = i + 2" | "j = i + 3" | "i + 4 \<le> j"
      by linarith
    then show ?thesis
      using j assms(2)
    proof cases
      case 3
      with j assms(2) show ?thesis
        by (simp add: msg1_def msg2_def msg3_def msg4_def cycle4_def)
    next
      case 4
      then have "j = Suc (Suc i)" by simp
      with j assms(2) show ?thesis
        by (simp add: msg1_def msg2_def msg3_def msg4_def cycle4_def)
    next
      case 5
      then have "j = Suc (Suc (Suc i))" by simp
      with j assms(2) show ?thesis
        by (simp add: msg1_def msg2_def msg3_def msg4_def cycle4_def)
    qed (use j assms(2) in \<open>simp_all add: msg1_def msg2_def msg3_def msg4_def cycle4_def\<close>)
  qed
  with run len show ?thesis by blast
qed

lemma duffs_loop_head:
  "i + 4 * k \<le> length msg \<Longrightarrow>
   \<exists>out. duffs_loop Case0 m0 m1 m2 m3 (int i + 4 * int k) i msg = Inr out \<and>
     length out = length msg \<and>
     (\<forall>j<length msg. out ! j =
        (if i \<le> j \<and> j < i + 4 * k then msg ! j XOR cycle4 m0 m1 m2 m3 (j - i) else msg ! j))"
proof (induction k arbitrary: i msg)
  case 0
  then show ?case by (auto simp add: duffs_loop.simps(1))
next
  case (Suc k)
  have "int i < int i + 4 * int (Suc k)" and "i + 3 < length msg"
    using Suc.prems by simp_all
  from duffs_loop_round [OF this] obtain msg4 where
    msg4: "duffs_loop Case0 m0 m1 m2 m3 (int i + 4 * int (Suc k)) i msg =
           duffs_loop Case0 m0 m1 m2 m3 (int i + 4 * int (Suc k)) (i + 4) msg4"
      "length msg4 = length msg"
      "\<forall>j<length msg. msg4 ! j =
         (if i \<le> j \<and> j < i + 4 then msg ! j XOR cycle4 m0 m1 m2 m3 (j - i) else msg ! j)"
    by blast
  have stop: "int i + 4 * int (Suc k) = int (i + 4) + 4 * int k" by simp
  have "(i + 4) + 4 * k \<le> length msg4" using Suc.prems msg4(2) by simp
  from Suc.IH [OF this] obtain out where
    out: "duffs_loop Case0 m0 m1 m2 m3 (int (i + 4) + 4 * int k) (i + 4) msg4 = Inr out"
      "length out = length msg4"
      "\<forall>j<length msg4. out ! j =
        (if i + 4 \<le> j \<and> j < i + 4 + 4 * k
         then msg4 ! j XOR cycle4 m0 m1 m2 m3 (j - (i + 4)) else msg4 ! j)"
    by blast
  have run: "duffs_loop Case0 m0 m1 m2 m3 (int i + 4 * int (Suc k)) i msg = Inr out"
    using msg4(1) out(1) by (simp only: stop)
  have "out ! j = (if i \<le> j \<and> j < i + 4 * Suc k
                    then msg ! j XOR cycle4 m0 m1 m2 m3 (j - i) else msg ! j)"
    if j: "j < length msg" for j
  proof (cases "i + 4 \<le> j")
    case True
    then have "j - i = (j - (i + 4)) + 4" by simp
    then have "cycle4 m0 m1 m2 m3 (j - i) = cycle4 m0 m1 m2 m3 (j - (i + 4))"
      by (simp only: cycle4_simps)
    with True j out(3) msg4(2,3) show ?thesis by simp
  next
    case False
    with j out(3) msg4(2,3) show ?thesis by simp
  qed
  with run msg4(2) out(2) show ?case by (simp only: int_plus) blast
qed

lemma duffs_loop_Case1:
  assumes "i + 1 + 4 * k \<le> length msg"
  shows "\<exists>out. duffs_loop Case1 m0 m1 m2 m3 (int i + 1 + 4 * int k) i msg = Inr out \<and>
     length out = length msg \<and>
     (\<forall>j<length msg. out ! j =
        (if i \<le> j \<and> j < i + 1 + 4 * k
         then msg ! j XOR cycle4 m0 m1 m2 m3 (j - i + 3) else msg ! j))"
proof -
  define msg1 where "msg1 = msg[i := msg ! i XOR m3]"
  have len1: "length msg1 = length msg" by (simp add: msg1_def)
  have x: "at_xor msg i m3 = Inr msg1"
    using assms by (simp add: at_xor_inside msg1_def)
  have stop: "int i + 1 + 4 * int k = int (i + 1) + 4 * int k" by simp
  have "(i + 1) + 4 * k \<le> length msg1" using assms len1 by simp
  from duffs_loop_head [OF this] obtain out where
    out: "duffs_loop Case0 m0 m1 m2 m3 (int (i + 1) + 4 * int k) (i + 1) msg1 = Inr out"
      "length out = length msg1"
      "\<forall>j<length msg1. out ! j =
        (if i + 1 \<le> j \<and> j < i + 1 + 4 * k
         then msg1 ! j XOR cycle4 m0 m1 m2 m3 (j - (i + 1)) else msg1 ! j)"
    by blast
  have run: "duffs_loop Case1 m0 m1 m2 m3 (int i + 1 + 4 * int k) i msg = Inr out"
    by (simp only: duffs_loop.simps(4) [of m0 m1 m2 m3 _ i msg] x sum.case stop out(1))
  have "out ! j = (if i \<le> j \<and> j < i + 1 + 4 * k
                    then msg ! j XOR cycle4 m0 m1 m2 m3 (j - i + 3) else msg ! j)"
    if j: "j < length msg" for j
  proof (cases "i + 1 \<le> j")
    case True
    then have "j - i + 3 = (j - (i + 1)) + 4" by simp
    then have "cycle4 m0 m1 m2 m3 (j - i + 3) = cycle4 m0 m1 m2 m3 (j - (i + 1))"
      by (simp only: cycle4_simps)
    with True j out(3) len1 show ?thesis by (simp add: msg1_def)
  next
    case False
    show ?thesis
    proof (cases "j = i")
      case True
      with j out(3) len1 assms show ?thesis by (simp add: msg1_def cycle4_simps)
    next
      case ne: False
      with False have "j < i" by simp
      with j out(3) len1 show ?thesis by (simp add: msg1_def)
    qed
  qed
  with run out(2) len1 show ?thesis by simp
qed

lemma duffs_loop_Case2:
  assumes "i + 2 + 4 * k \<le> length msg"
  shows "\<exists>out. duffs_loop Case2 m0 m1 m2 m3 (int i + 2 + 4 * int k) i msg = Inr out \<and>
     length out = length msg \<and>
     (\<forall>j<length msg. out ! j =
        (if i \<le> j \<and> j < i + 2 + 4 * k
         then msg ! j XOR cycle4 m0 m1 m2 m3 (j - i + 2) else msg ! j))"
proof -
  define msg1 where "msg1 = msg[i := msg ! i XOR m2]"
  have len1: "length msg1 = length msg" by (simp add: msg1_def)
  have x: "at_xor msg i m2 = Inr msg1"
    using assms by (simp add: at_xor_inside msg1_def)
  have stop: "int i + 2 + 4 * int k = int (i + 1) + 1 + 4 * int k" by simp
  have "(i + 1) + 1 + 4 * k \<le> length msg1" using assms len1 by simp
  from duffs_loop_Case1 [OF this] obtain out where
    out: "duffs_loop Case1 m0 m1 m2 m3 (int (i + 1) + 1 + 4 * int k) (i + 1) msg1 = Inr out"
      "length out = length msg1"
      "\<forall>j<length msg1. out ! j =
        (if i + 1 \<le> j \<and> j < i + 1 + 1 + 4 * k
         then msg1 ! j XOR cycle4 m0 m1 m2 m3 (j - (i + 1) + 3) else msg1 ! j)"
    by blast
  have run: "duffs_loop Case2 m0 m1 m2 m3 (int i + 2 + 4 * int k) i msg = Inr out"
    by (simp only: duffs_loop.simps(3) [of m0 m1 m2 m3 _ i msg] x sum.case stop out(1))
  have "out ! j = (if i \<le> j \<and> j < i + 2 + 4 * k
                    then msg ! j XOR cycle4 m0 m1 m2 m3 (j - i + 2) else msg ! j)"
    if j: "j < length msg" for j
  proof (cases "i + 1 \<le> j")
    case True
    then have "j - (i + 1) + 3 = j - i + 2" by simp
    with True j out(3) len1 show ?thesis by (simp add: msg1_def)
  next
    case False
    show ?thesis
    proof (cases "j = i")
      case True
      with j out(3) len1 assms show ?thesis by (simp add: msg1_def cycle4_simps)
    next
      case ne: False
      with False have "j < i" by simp
      with j out(3) len1 show ?thesis by (simp add: msg1_def)
    qed
  qed
  with run out(2) len1 show ?thesis by simp
qed

lemma duffs_loop_Case3:
  assumes "i + 3 + 4 * k \<le> length msg"
  shows "\<exists>out. duffs_loop Case3 m0 m1 m2 m3 (int i + 3 + 4 * int k) i msg = Inr out \<and>
     length out = length msg \<and>
     (\<forall>j<length msg. out ! j =
        (if i \<le> j \<and> j < i + 3 + 4 * k
         then msg ! j XOR cycle4 m0 m1 m2 m3 (j - i + 1) else msg ! j))"
proof -
  define msg1 where "msg1 = msg[i := msg ! i XOR m1]"
  have len1: "length msg1 = length msg" by (simp add: msg1_def)
  have x: "at_xor msg i m1 = Inr msg1"
    using assms by (simp add: at_xor_inside msg1_def)
  have stop: "int i + 3 + 4 * int k = int (i + 1) + 2 + 4 * int k" by simp
  have "(i + 1) + 2 + 4 * k \<le> length msg1" using assms len1 by simp
  from duffs_loop_Case2 [OF this] obtain out where
    out: "duffs_loop Case2 m0 m1 m2 m3 (int (i + 1) + 2 + 4 * int k) (i + 1) msg1 = Inr out"
      "length out = length msg1"
      "\<forall>j<length msg1. out ! j =
        (if i + 1 \<le> j \<and> j < i + 1 + 2 + 4 * k
         then msg1 ! j XOR cycle4 m0 m1 m2 m3 (j - (i + 1) + 2) else msg1 ! j)"
    by blast
  have run: "duffs_loop Case3 m0 m1 m2 m3 (int i + 3 + 4 * int k) i msg = Inr out"
    by (simp only: duffs_loop.simps(2) [of m0 m1 m2 m3 _ i msg] x sum.case stop out(1))
  have "out ! j = (if i \<le> j \<and> j < i + 3 + 4 * k
                    then msg ! j XOR cycle4 m0 m1 m2 m3 (j - i + 1) else msg ! j)"
    if j: "j < length msg" for j
  proof (cases "i + 1 \<le> j")
    case True
    then have "j - (i + 1) + 2 = j - i + 1" by simp
    with True j out(3) len1 show ?thesis by (simp add: msg1_def)
  next
    case False
    show ?thesis
    proof (cases "j = i")
      case True
      with j out(3) len1 assms show ?thesis by (simp add: msg1_def cycle4_simps)
    next
      case ne: False
      with False have "j < i" by simp
      with j out(3) len1 show ?thesis by (simp add: msg1_def)
    qed
  qed
  with run out(2) len1 show ?thesis by simp
qed

lemma mask_byte_cycle4:
  "mask_byte mask' n =
     cycle4 (narrow (signed_drop_bit 24 mask')) (narrow (signed_drop_bit 16 mask'))
       (narrow (signed_drop_bit 8 mask')) (narrow mask') n"
  by (simp add: mask_byte_def cycle4_def)

lemma duffs_device_result:
  assumes "length msg = 0 \<or> 4 \<le> length msg"
  shows "\<exists>out. duffs_device mask' msg = Inr out \<and> length out = length msg \<and>
     (\<forall>j<length msg. out ! j =
        (if length msg mod 4 \<le> j \<and> j + (4 - length msg mod 4) < length msg
         then msg ! j XOR mask_byte mask' (j - length msg mod 4 + (4 - length msg mod 4))
         else msg ! j))"
proof -
  define r where "r = length msg mod 4"
  define q where "q = length msg div 4"
  define M0 where "M0 = narrow (signed_drop_bit 24 mask')"
  define M1 where "M1 = narrow (signed_drop_bit 16 mask')"
  define M2 where "M2 = narrow (signed_drop_bit 8 mask')"
  define M3 where "M3 = narrow mask'"
  have len: "length msg = 4 * q + r" by (simp add: r_def q_def)
  have r4: "r < 4" by (simp add: r_def)
  have r_int: "int (length msg) mod 4 = int r"
    by (simp add: r_def zmod_int)
  have dev: "duffs_device mask' msg =
     (case switch_label (int r) of
        None \<Rightarrow> Inr msg
      | Some entry \<Rightarrow> duffs_loop entry M0 M1 M2 M3 (int (length msg) - (4 - int r)) r msg)"
    unfolding duffs_device_def Let_def r_int nat_int M0_def M1_def M2_def M3_def ..
  have mb: "mask_byte mask' n = cycle4 M0 M1 M2 M3 n" for n
    by (simp add: mask_byte_cycle4 M0_def M1_def M2_def M3_def)
  consider "r = 0" "q = 0" | "r = 0" "0 < q" | "r = 1" "0 < q" | "r = 2" "0 < q" | "r = 3" "0 < q"
    using assms len r4 by linarith
  then have "\<exists>out. duffs_device mask' msg = Inr out \<and> length out = length msg \<and>
     (\<forall>j<length msg. out ! j =
        (if r \<le> j \<and> j + (4 - r) < length msg
         then msg ! j XOR cycle4 M0 M1 M2 M3 (j - r + (4 - r))
         else msg ! j))"
  proof cases
    case 1
    have "duffs_device mask' msg = duffs_loop Case0 M0 M1 M2 M3 (int (length msg) - (4 - int r)) r msg"
      unfolding dev using 1(1) by (simp add: switch_label_def)
    also have "\<dots> = Inr msg"
      using 1 len by (simp add: duffs_loop.simps(1))
    finally show ?thesis
      using 1 len by simp
  next
    case 2
    have stop: "int (length msg) - (4 - int r) = int 0 + 4 * int (q - 1)"
      using 2 len by simp
    have "0 + 4 * (q - 1) \<le> length msg" using len by simp
    from duffs_loop_head [OF this, of M0 M1 M2 M3] obtain out where
      out: "duffs_loop Case0 M0 M1 M2 M3 (int 0 + 4 * int (q - 1)) 0 msg = Inr out"
        "length out = length msg"
        "\<forall>j<length msg. out ! j =
          (if 0 \<le> j \<and> j < 0 + 4 * (q - 1)
           then msg ! j XOR cycle4 M0 M1 M2 M3 (j - 0) else msg ! j)"
      by blast
    have sw: "switch_label (int r) = Some Case0"
      using 2(1) by (simp add: switch_label_def)
    have run: "duffs_device mask' msg = Inr out"
      unfolding dev sw option.case
      unfolding stop
      unfolding 2(1)
      by (rule out(1))
    have "cycle4 M0 M1 M2 M3 (j + 4) = cycle4 M0 M1 M2 M3 j" for j
      by (simp only: cycle4_simps)
    with run out(2,3) 2 len show ?thesis by auto
  next
    case 3
    have stop: "int (length msg) - (4 - int r) = int 1 + 1 + 4 * int (q - 1)"
      using 3 len by simp
    have "1 + 1 + 4 * (q - 1) \<le> length msg" using 3 len by simp
    from duffs_loop_Case1 [OF this, of M0 M1 M2 M3] obtain out where
      out: "duffs_loop Case1 M0 M1 M2 M3 (int 1 + 1 + 4 * int (q - 1)) 1 msg = Inr out"
        "length out = length msg"
        "\<forall>j<length msg. out ! j =
          (if 1 \<le> j \<and> j < 1 + 1 + 4 * (q - 1)
           then msg ! j XOR cycle4 M0 M1 M2 M3 (j - 1 + 3) else msg ! j)"
      by blast
    have sw: "switch_label (int r) = Some Case1"
      using 3(1) by (simp add: switch_label_def)
    have run: "duffs_device mask' msg = Inr out"
      unfolding dev sw option.case
      unfolding stop
      unfolding 3(1)
      by (rule out(1))
    with out(2,3) 3 len show ?thesis by auto
  next
    case 4
    have stop: "int (length msg) - (4 - int r) = int 2 + 2 + 4 * int (q - 1)"
      using 4 len by simp
    have "2 + 2 + 4 * (q - 1) \<le> length msg" using 4 len by simp
    from duffs_loop_Case2 [OF this, of M0 M1 M2 M3] obtain out where
      out: "duffs_loop Case2 M0 M1 M2 M3 (int 2 + 2 + 4 * int (q - 1)) 2 msg = Inr out"
        "length out = length msg"
        "\<forall>j<length msg. out ! j =
          (if 2 \<le> j \<and> j < 2 + 2 + 4 * (q - 1)
           then msg ! j XOR cycle4 M0 M1 M2 M3 (j - 2 + 2) else msg ! j)"
      by blast
    have sw: "switch_label (int r) = Some Case2"
      using 4(1) by (simp add: switch_label_def)
    have run: "duffs_device mask' msg = Inr out"
      unfolding dev sw option.case
      unfolding stop
      unfolding 4(1)
      by (rule out(1))
    with out(2,3) 4 len show ?thesis by auto
  next
    case 5
    have stop: "int (length msg) - (4 - int r) = int 3 + 3 + 4 * int (q - 1)"
      using 5 len by simp
    have "3 + 3 + 4 * (q - 1) \<le> length msg" using 5 len by simp
    from duffs_loop_Case3 [OF this, of M0 M1 M2 M3] obtain out where
      out: "duffs_loop Case3 M0 M1 M2 M3 (int 3 + 3 + 4 * int (q - 1)) 3 msg = Inr out"
        "length out = length msg"
        "\<forall>j<length msg. out ! j =
          (if 3 \<le> j \<and> j < 3 + 3 + 4 * (q - 1)
           then msg ! j XOR cycle4 M0 M1 M2 M3 (j - 3 + 1) else msg ! j)"
      by blast
    have sw: "switch_label (int r) = Some Case3"
      using 5(1) by (simp add: switch_label_def)
    have run: "duffs_device mask' msg = Inr out"
      unfolding dev sw option.case
      unfolding stop
      unfolding 5(1)
      by (rule out(1))
    with out(2,3) 5 len show ?thesis by auto
  qed
  then show ?thesis by (simp only: mb r_def)
qed

lemma at_xor_length: "at_xor s pos m = Inr s' \<Longrightarrow> length s' = length s"
  by (auto simp: at_xor_def at_read_def at_write_def split: if_splits)

lemma duffs_loop_length:
  "duffs_loop entry m0 m1 m2 m3 stop i msg = Inr out \<Longrightarrow> length out = length msg"
proof (induction entry m0 m1 m2 m3 stop i msg rule: duffs_loop.induct)
  case (1 m0 m1 m2 m3 stop i msg)
  then show ?case
    by (auto simp: duffs_loop.simps(1) split: if_splits sum.splits dest: at_xor_length)
next
  case (2 m0 m1 m2 m3 stop i msg)
  then show ?case
    by (auto simp: duffs_loop.simps(2) split: sum.splits dest: at_xor_length)
next
  case (3 m0 m1 m2 m3 stop i msg)
  then show ?case
    by (auto simp: duffs_loop.simps(3) split: sum.splits dest: at_xor_length)
next
  case (4 m0 m1 m2 m3 stop i msg)
  then show ?case
    by (auto simp: duffs_loop.simps(4) split: sum.splits dest: at_xor_length)
qed

lemma duffs_device_keeps_length:
  "duffs_device mask' msg = Inr out \<Longrightarrow> length out = length msg"
  by (auto simp: duffs_device_def Let_def split: option.splits dest: duffs_loop_length)

lemma kDuffsMask_bytes:
  "narrow (signed_drop_bit 24 kDuffsMask) = 0x12"
  "narrow (signed_drop_bit 16 kDuffsMask) = 0x34"
  "narrow (signed_drop_bit 8 kDuffsMask) = 0x56"
  "narrow kDuffsMask = 0x78"
  by (simp_all add: kDuffsMask_def narrow_def)

lemma duffs_device_short:
  assumes "length msg \<in> {1, 2, 3}"
  shows "duffs_device kDuffsMask msg = Inl UndefinedBehaviour"
proof -
  consider "length msg = 1" | "length msg = 2" | "length msg = 3"
    using assms by auto
  then show ?thesis
  proof cases
    case 1
    have "at_xor msg 1 0x78 = Inl UndefinedBehaviour"
      using at_xor_terminator [of "0x78" msg] 1 by simp
    with 1 show ?thesis
      by (simp add: duffs_device_def kDuffsMask_bytes switch_label_def duffs_loop.simps)
  next
    case 2
    have "at_xor msg 2 0x56 = Inl UndefinedBehaviour"
      using at_xor_terminator [of "0x56" msg] 2 by simp
    with 2 show ?thesis
      by (simp add: duffs_device_def kDuffsMask_bytes switch_label_def duffs_loop.simps)
  next
    case 3
    have "at_xor msg 3 0x34 = Inl UndefinedBehaviour"
      using at_xor_terminator [of "0x34" msg] 3 by simp
    with 3 show ?thesis
      by (simp add: duffs_device_def kDuffsMask_bytes switch_label_def duffs_loop.simps)
  qed
qed

lemma duffs_device_twice:
  assumes "length msg = 0 \<or> 4 \<le> length msg"
  shows "\<exists>mid. duffs_device mask' msg = Inr mid \<and> duffs_device mask' mid = Inr msg"
proof -
  from duffs_device_result [OF assms, of mask'] obtain mid where
    mid: "duffs_device mask' msg = Inr mid" "length mid = length msg"
      "\<forall>j<length msg. mid ! j =
        (if length msg mod 4 \<le> j \<and> j + (4 - length msg mod 4) < length msg
         then msg ! j XOR mask_byte mask' (j - length msg mod 4 + (4 - length msg mod 4))
         else msg ! j)"
    by blast
  have "length mid = 0 \<or> 4 \<le> length mid" using assms mid(2) by simp
  from duffs_device_result [OF this, of mask'] obtain out where
    out: "duffs_device mask' mid = Inr out" "length out = length mid"
      "\<forall>j<length mid. out ! j =
        (if length mid mod 4 \<le> j \<and> j + (4 - length mid mod 4) < length mid
         then mid ! j XOR mask_byte mask' (j - length mid mod 4 + (4 - length mid mod 4))
         else mid ! j)"
    by blast
  have "out = msg"
  proof (rule nth_equalityI)
    show "length out = length msg" using out(2) mid(2) by simp
    fix j assume "j < length out"
    then have j: "j < length msg" using out(2) mid(2) by simp
    show "out ! j = msg ! j"
      using j out(3) mid(2,3) by (simp add: xor.assoc)
  qed
  with mid(1) out(1) show ?thesis by simp
qed

text \<open>
  Claim C3 (\<open>duffs_device\<close> with the fixed mask is its own inverse on every message).
  On a message of 1, 2 or 3 bytes the switch jumps into the loop body, and the first
  statement executed there stores a non-zero byte through \<open>message_[len]\<close>, the
  terminator, before \<open>i < stop\<close> is ever tested: there is no result to apply
  \<open>duffs_device\<close> to a second time. (On every other length the second application
  does restore the message: \<open>duffs_device_twice\<close>.)
\<close>

theorem duffs_device_short_message:
  assumes "length msg \<in> {1, 2, 3}"
  shows "duffs_device kDuffsMask msg = Inl UndefinedBehaviour"
  using assms by (rule duffs_device_short)

theorem duffs_device_short_message_witness:
  "length [104, 105 :: byte] \<in> {1, 2, 3} \<and>
   duffs_device kDuffsMask [104, 105] = Inl UndefinedBehaviour"
  using duffs_device_short_message [of "[104, 105]"] by simp

text \<open>
  Claim C4, as the code has it. The claim reads: \<open>duffs_device\<close> combines exactly the
  bytes at the indices \<open>leadPad\<close> to \<open>L - trailPad - 1\<close> with the mask, where
  \<open>leadPad = L mod 4\<close> and \<open>trailPad\<close> is \<open>4 - leadPad\<close> or, for \<open>leadPad = 0\<close>, 0, the
  cycle of mask bytes starting at \<open>m0\<close> on the first of them. The code differs in two
  ways: \<open>right_pad\<close> is always \<open>4 - left_pad\<close>, so that four trailing bytes stay
  untouched when the length is a multiple of 4; and the switch enters the cycle at the
  label of the remainder, so that the first interior byte is combined with the mask byte
  of index \<open>4 - leadPad\<close> (modulo 4) and the last one always with \<open>m3\<close>.

  For a message of length 0 or at least 4, \<open>duffs_device\<close> returns a message of the
  same length in which the byte at index \<open>j\<close> is combined with the mask byte of index
  \<open>(j - leadPad) + (4 - leadPad)\<close> when \<open>leadPad \<le> j < L - (4 - leadPad)\<close>, and is
  unchanged otherwise.
\<close>

theorem duffs_device_interior:
  assumes "length msg = 0 \<or> 4 \<le> length msg"
  shows "\<exists>out. duffs_device mask' msg = Inr out \<and> length out = length msg \<and>
     (\<forall>j<length msg. out ! j =
        (if length msg mod 4 \<le> j \<and> j + (4 - length msg mod 4) < length msg
         then msg ! j XOR mask_byte mask' (j - length msg mod 4 + (4 - length msg mod 4))
         else msg ! j))"
  using assms by (rule duffs_device_result)

theorem duffs_device_interior_witness:
  "(length hello_world = 0 \<or> 4 \<le> length hello_world) \<and>
   (\<exists>out. duffs_device kDuffsMask hello_world = Inr out \<and>
      length out = length hello_world \<and>
      (\<forall>j<length hello_world. out ! j =
        (if length hello_world mod 4 \<le> j \<and> j + (4 - length hello_world mod 4) < length hello_world
         then hello_world ! j XOR
              mask_byte kDuffsMask (j - length hello_world mod 4 + (4 - length hello_world mod 4))
         else hello_world ! j)))"
proof -
  have h: "length hello_world = 0 \<or> 4 \<le> length hello_world"
    by (simp add: hello_world_def)
  from duffs_device_interior [OF h, of kDuffsMask] h show ?thesis
    by blast
qed

text \<open>
  The claim as it is written fails on five zero bytes, where the code combines the one
  interior byte with \<open>m3 = 0x78\<close> and the claim with \<open>m0 = 0x12\<close>, and on eight zero
  bytes, where the code leaves the last four bytes alone and the claim masks all eight.
\<close>

theorem duffs_device_differs_from_spec:
  "duffs_device kDuffsMask [0, 0, 0, 0, 0] = Inr [0, 0x78, 0, 0, 0] \<and>
   spec_MaskTransform [0, 0, 0, 0, 0] kDuffsMask = [0, 0x12, 0, 0, 0] \<and>
   duffs_device kDuffsMask [0, 0, 0, 0, 0, 0, 0, 0] = Inr [0x12, 0x34, 0x56, 0x78, 0, 0, 0, 0] \<and>
   spec_MaskTransform [0, 0, 0, 0, 0, 0, 0, 0] kDuffsMask =
     [0x12, 0x34, 0x56, 0x78, 0x12, 0x34, 0x56, 0x78]"
  by (simp add: duffs_device_def kDuffsMask_bytes switch_label_def duffs_loop.simps
      at_xor_inside spec_MaskTransform_def mask_byte_def upt_rec)

text \<open>
  Claim C9: \<open>duffs_device\<close> leaves the length of the message unchanged, for every
  message and every mask. Every store goes through \<open>operator[]\<close>, so a message that
  \<open>duffs_device\<close> returns has the length of the one it was given.
\<close>

theorem duffs_device_length_unchanged:
  assumes "duffs_device mask' msg = Inr out"
  shows "length out = length msg"
  using assms by (rule duffs_device_keeps_length)

theorem duffs_device_length_unchanged_witness:
  "duffs_device kDuffsMask hello_world =
     Inr [72, 29, 126, 88, 57, 84, 50, 99, 57, 10, 108, 100, 33] \<and>
   length [72, 29, 126, 88, 57, 84, 50, 99, 57, 10, 108, 100, 33 :: byte] = length hello_world"
proof -
  have h: "duffs_device kDuffsMask hello_world =
             Inr [72, 29, 126, 88, 57, 84, 50, 99, 57, 10, 108, 100, 33]"
    by (simp add: duffs_device_def hello_world_def kDuffsMask_bytes switch_label_def
        duffs_loop.simps at_xor_inside)
  from duffs_device_length_unchanged [OF h] h show ?thesis
    by simp
qed

subsection \<open>The recursion of \<open>xor_head_with_tail\<close> has no working base case\<close>

text \<open>
  The early return is guarded by \<open>1 == 0\<close>, so every call goes on to
  \<open>message.substr(1)\<close>, and the call that receives the empty string throws there.
\<close>

lemma xor_head_with_tail_throws:
  "xor_head_with_tail message encoding = Inl out_of_range"
proof (induction message encoding rule: xor_head_with_tail.induct)
  case (1 message encoding)
  show ?case
  proof (cases message)
    case Nil
    then show ?thesis
      by (cases encoding)
         (simp_all add: xor_head_with_tail.simps [of "[]"] at_read_def substr_def)
  next
    case (Cons h t)
    have rd: "at_read message 0 = Inr h"
      using Cons by (simp add: at_read_def)
    have sb: "substr message 1 = Inr t"
      using Cons by (simp add: substr_def)
    have lp: "xor_loop 1 1 (xor_value h) message = Inr message"
      by simp
    have inner: "xor_head_with_tail t False = Inl out_of_range"
    proof (cases encoding)
      case True
      from "1.IH"(1) [OF _ _ _ rd refl True sb] show ?thesis by simp
    next
      case False
      from "1.IH"(2) [OF _ _ _ rd refl False lp sb] show ?thesis by simp
    qed
    show ?thesis
      by (cases encoding)
         (use rd sb inner in \<open>simp_all add: xor_head_with_tail.simps [of message]\<close>)
  qed
qed

text \<open>
  Claim C2 (diffusion inverse: transforming a message in the Encode direction and then
  in the Decode direction returns the message). The code does not get that far:
  \<open>xor_head_with_tail\<close> ends with the exception \<open>std::out_of_range\<close> on every
  message, in both directions, so there is no encoded message to decode. The empty
  message is the shortest input on which the first call fails.
\<close>

theorem xor_head_with_tail_never_returns:
  "xor_head_with_tail message True = Inl out_of_range \<and>
   xor_head_with_tail message False = Inl out_of_range"
  by (simp add: xor_head_with_tail_throws)

text \<open>
  Claim C8 (\<open>duffs_device\<close> and \<open>xor_head_with_tail\<close> return a result for every
  message, the empty one included, without touching anything past its end). On the
  empty message \<open>xor_head_with_tail\<close> throws in either direction, and on the one-byte
  message \<open>a\<close> \<open>duffs_device\<close> stores through \<open>message_[1]\<close>, the terminator.
\<close>

theorem transforms_not_total:
  "xor_head_with_tail [] True = Inl out_of_range \<and>
   xor_head_with_tail [] False = Inl out_of_range \<and>
   duffs_device kDuffsMask [97] = Inl UndefinedBehaviour"
  by (simp add: xor_head_with_tail_throws duffs_device_def kDuffsMask_def narrow_def
      switch_label_def duffs_loop.simps at_xor_def at_read_def at_write_def)

text \<open>
  Two bounds on \<open>arctan\<close> and Euler's formula for \<open>\<pi> / 4\<close> place \<open>\<pi>\<close> between
  \<open>25 / 8\<close> and \<open>13 / 4\<close>, which is all that the key of the head byte 4 needs.
\<close>

lemma arctan_le_arg:
  fixes x :: real
  assumes "0 \<le> x"
  shows "arctan x \<le> x"
proof -
  have "(\<lambda>t. t - arctan t) 0 \<le> (\<lambda>t. t - arctan t) x"
  proof (rule DERIV_nonneg_imp_nondecreasing [OF assms])
    fix t :: real
    assume "0 \<le> t" "t \<le> x"
    have "((\<lambda>t. t - arctan t) has_real_derivative (1 - inverse (1 + t\<^sup>2))) (at t)"
      by (auto intro!: derivative_eq_intros)
    moreover have "0 \<le> 1 - inverse (1 + t\<^sup>2)"
      by (simp add: inverse_le_1_iff)
    ultimately show "\<exists>y. ((\<lambda>t. t - arctan t) has_real_derivative y) (at t) \<and> 0 \<le> y"
      by blast
  qed
  then show ?thesis by simp
qed

lemma arctan_ge_cubic:
  fixes x :: real
  assumes "0 \<le> x"
  shows "x - x ^ 3 / 3 \<le> arctan x"
proof -
  have "(\<lambda>t. arctan t - t + t ^ 3 / 3) 0 \<le> (\<lambda>t. arctan t - t + t ^ 3 / 3) x"
  proof (rule DERIV_nonneg_imp_nondecreasing [OF assms])
    fix t :: real
    assume "0 \<le> t" "t \<le> x"
    have "((\<lambda>t. arctan t - t + t ^ 3 / 3) has_real_derivative (inverse (1 + t\<^sup>2) - 1 + t\<^sup>2)) (at t)"
      by (auto intro!: derivative_eq_intros simp: field_simps)
    moreover have "inverse (1 + t\<^sup>2) - 1 + t\<^sup>2 = t ^ 4 / (1 + t\<^sup>2)"
    proof -
      have "1 + t\<^sup>2 \<noteq> 0" by (metis add_nonneg_eq_0_iff zero_le_power2 zero_neq_one zero_le_one)
      then show ?thesis by (simp add: field_simps power4_eq_xxxx power2_eq_square)
    qed
    moreover have "0 \<le> t ^ 4 / (1 + t\<^sup>2)"
      by (simp add: add_nonneg_nonneg)
    ultimately show "\<exists>y. ((\<lambda>t. arctan t - t + t ^ 3 / 3) has_real_derivative y) (at t) \<and> 0 \<le> y"
      by auto
  qed
  then show ?thesis by simp
qed

lemma pi_between: "25 / 8 \<le> pi \<and> pi < 13 / 4"
proof -
  have u1: "arctan (1 / 7) \<le> 1 / 7" by (rule arctan_le_arg) simp
  have u2: "arctan (3 / 79) \<le> 3 / 79" by (rule arctan_le_arg) simp
  have l1: "(1 / 7) - (1 / 7) ^ 3 / 3 \<le> arctan (1 / 7 :: real)" by (rule arctan_ge_cubic) simp
  have l2: "(3 / 79) - (3 / 79) ^ 3 / 3 \<le> arctan (3 / 79 :: real)" by (rule arctan_ge_cubic) simp
  have "pi = 4 * (5 * arctan (1 / 7) + 2 * arctan (3 / 79))"
    using machin_Euler by simp
  with u1 u2 l1 l2 show ?thesis
    by (simp add: power3_eq_cube)
qed

text \<open>
  Claim C5 (the diffusion key is \<open>floor (2 \<pi> h) mod 256\<close>, and the head byte passes
  through). The code multiplies by \<open>2 * kPi\<close> with \<open>kPi\<close> an \<open>int\<close>, which is 6: for
  the head byte 4 the value is 24, where the specification's key is 25.
\<close>

theorem xor_value_of_head_4:
  "xor_value 4 = 24 \<and> (word_of_int (xor_value 4) :: byte) = 24 \<and> spec_diffusion_key 4 = 25"
proof -
  have "\<lfloor>2 * pi * 4\<rfloor> = 25"
    using pi_between by (simp add: floor_eq_iff)
  then show ?thesis
    by (simp add: xor_value_def kPi_val spec_diffusion_key_def)
qed

subsection \<open>\<open>base64encode\<close>\<close>

lemma resize_length: "resize s n c = Inr s' \<Longrightarrow> int (length s') = n"
  by (auto simp: resize_def split: if_splits)

lemma at_read_error: "at_read s pos = Inl e \<Longrightarrow> e = UndefinedBehaviour"
  by (auto simp: at_read_def split: if_splits)

text \<open>
  Every round of the loop appends four characters, and the loop can only stop without a
  result at a read outside a string.
\<close>

lemma base64encode_loop_length:
  "base64encode_loop s2_at tbl src bits done' si dst = Inr out \<Longrightarrow>
   int (length out) = int (length dst) + 4 * max 0 ((bits - done' + 23) div 24)"
  supply base64encode_loop.simps [simp del]
proof (induction s2_at tbl src bits done' si dst rule: base64encode_loop.induct)
  case (1 s2_at tbl src bits done' si dst)
  show ?case
  proof (cases "done' < bits")
    case False
    with "1.prems" have "out = dst" by (simp add: base64encode_loop.simps)
    moreover from False have "(bits - done' + 23) div 24 \<le> 0" by linarith
    ultimately show ?thesis by simp
  next
    case True
    from "1.prems" True obtain s0 s1 d0' d1' d2' d3' where
      rd: "at_read src si = Inr s0" "at_read src (unat s0) = Inr s1"
        "at_read tbl (unat (narrow (promote (s0 + 1) AND 0x3F))) = Inr d0'"
        "at_read tbl (unat d0') = Inr d1'" "at_read tbl (unat d0') = Inr d2'"
        "at_read tbl (unat d0') = Inr d3'"
      and rec: "base64encode_loop s2_at tbl src bits (done' + 24) (si + 1)
                 (dst @ [d0', d1', d2', d3']) = Inr out"
      by (subst (asm) base64encode_loop.simps) (auto simp: Let_def split: sum.splits)
    have "int (length out) =
          int (length (dst @ [d0', d1', d2', d3'])) + 4 * max 0 ((bits - (done' + 24) + 23) div 24)"
      by (rule "1.IH" [OF True rd(1) rd(2) refl refl refl refl refl refl rd(3) rd(4) rd(5) rd(6) rec])
    moreover have "max 0 ((bits - done' + 23) div 24) = 1 + max 0 ((bits - (done' + 24) + 23) div 24)"
      using True by linarith
    ultimately show ?thesis by simp
  qed
qed

lemma base64encode_loop_error:
  "base64encode_loop s2_at tbl src bits done' si dst = Inl e \<Longrightarrow> e = UndefinedBehaviour"
  supply base64encode_loop.simps [simp del]
proof (induction s2_at tbl src bits done' si dst rule: base64encode_loop.induct)
  case (1 s2_at tbl src bits done' si dst)
  show ?case
  proof (cases "done' < bits")
    case False
    with "1.prems" show ?thesis by (simp add: base64encode_loop.simps)
  next
    case True
    show ?thesis
      using "1.prems" True "1.IH"
      by (subst (asm) base64encode_loop.simps)
         (auto simp: Let_def split: sum.splits dest: at_read_error)
  qed
qed

lemma cut_arith:
  fixes b :: int
  assumes "0 \<le> b"
  shows "(b + 5) div 6 \<le> 4 * max 0 ((b + 23) div 24)"
    and "4 * max 0 ((b + 23) div 24) - (b + 5) div 6 \<le> 3"
  using assms by linarith+

lemma base64encode_outcome:
  "case base64encode s2_at st of
     Inl e \<Rightarrow> e = UndefinedBehaviour
   | Inr st' \<Rightarrow>
       \<exists>dst. base64encode_loop s2_at (base64table_' st) (message_' st @ [0, 0, 0])
               (encode_bits (int (length (message_' st)))) 0 0 [] = Inr dst \<and>
             4 dvd length dst \<and>
             length (message_' st') \<le> length dst \<and>
             length dst - length (message_' st') \<le> 3 \<and>
             message_' st' = take (length (message_' st')) dst \<and>
             base64table_' st' = base64table_' st"
  supply base64encode_loop.simps [simp del]
proof -
  define bits where "bits = encode_bits (int (length (message_' st)))"
  define run where "run = base64encode_loop s2_at (base64table_' st) (message_' st @ [0, 0, 0])
               bits 0 0 []"
  have bits0: "0 \<le> bits" by (simp add: bits_def encode_bits_def)
  have enc: "base64encode s2_at st =
     (case run of
        Inl e \<Rightarrow> Inl e
      | Inr dst \<Rightarrow>
         (case resize dst ((bits + 5) div 6) 0 of
            Inl e \<Rightarrow> Inl e
          | Inr dst' \<Rightarrow> Inr (st\<lparr>message_' := dst'\<rparr>)))"
    unfolding base64encode_def Let_def bits_def run_def by (rule refl)
  show ?thesis
  proof (cases run)
    case (Inl e)
    then have "e = UndefinedBehaviour"
      unfolding run_def by (rule base64encode_loop_error)
    with Inl show ?thesis by (simp add: enc)
  next
    case (Inr dst)
    then have len: "int (length dst) = 4 * max 0 ((bits + 23) div 24)"
      unfolding run_def using base64encode_loop_length [of s2_at _ _ bits 0 0 "[]" dst] by simp
    have L0: "0 \<le> (bits + 5) div 6" using bits0 by linarith
    have L1: "(bits + 5) div 6 \<le> int (length dst)"
      using cut_arith(1) [OF bits0] len by simp
    have L2: "int (length dst) - (bits + 5) div 6 \<le> 3"
      using cut_arith(2) [OF bits0] len by simp
    have rs: "resize dst ((bits + 5) div 6) 0 = Inr (take (nat ((bits + 5) div 6)) dst)"
      using L0 L1 by (simp add: resize_def)
    have lt: "length (take (nat ((bits + 5) div 6)) dst) = nat ((bits + 5) div 6)"
      using L0 L1 by simp
    have dv: "4 dvd length dst"
    proof -
      have "int (length dst) = 4 * max 0 ((bits + 23) div 24)" by (rule len)
      then have "(4::int) dvd int (length dst)" by simp
      then show ?thesis by presburger
    qed
    have "base64encode s2_at st = Inr (st\<lparr>message_' := take (nat ((bits + 5) div 6)) dst\<rparr>)"
      using Inr rs by (simp add: enc)
    moreover have "run = Inr dst" by (rule Inr)
    moreover have "nat ((bits + 5) div 6) \<le> length dst"
      using L0 L1 by linarith
    moreover have "length dst - nat ((bits + 5) div 6) \<le> 3"
      using L0 L1 L2 by linarith
    ultimately show ?thesis
      using dv lt unfolding run_def bits_def by simp
  qed
qed

text \<open>
  Claim C6, as the code has it. The claim reads: the output of \<open>base64encode\<close> has a
  length that is a multiple of 4, with one padding sentinel after a final chunk of two
  bytes and two after a final chunk of one byte. The code has no padding step: where the
  claim replaces the characters at the end of the last group by the sentinel, the code
  cuts them off (\<open>dst.resize(dst_len, 0)\<close>, under a comment that says that extra
  bytes may have been encoded), and the header comment's test patterns show outputs that are not padded (18
  characters for the 13 bytes of \<open>Hello, World!\<close>).

  For every input, \<open>base64encode\<close> either stops at a read outside a string, or returns
  the characters that the rounds of its loop have looked up, four for each round, without
  the last 0 to 3 of them: nothing is appended, no character is replaced, and the table
  is left as it was.
\<close>

theorem base64encode_cuts_without_padding:
  "case base64encode s2_at st of
     Inl e \<Rightarrow> e = UndefinedBehaviour
   | Inr st' \<Rightarrow>
       \<exists>dst. base64encode_loop s2_at (base64table_' st) (message_' st @ [0, 0, 0])
               (encode_bits (int (length (message_' st)))) 0 0 [] = Inr dst \<and>
             4 dvd length dst \<and>
             length (message_' st') \<le> length dst \<and>
             length dst - length (message_' st') \<le> 3 \<and>
             message_' st' = take (length (message_' st')) dst \<and>
             base64table_' st' = base64table_' st"
  by (rule base64encode_outcome)

text \<open>
  The input of the witness and of the counterexample is the digit \<open>1\<close> 46 times, with
  the table that \<open>init_base64table\<close> builds. 46 bytes end in a chunk of one byte, so
  that the claim asks for a multiple of 4 characters, the last two of them \<open>=\<close> (61).
  The code returns a number of characters that is not a multiple of 4, and \<open>=\<close> is not
  among them.
\<close>

theorem base64encode_cuts_without_padding_witness:
  "base64encode s2_zero digits_46 = Inr digits_46_encoded \<and>
   (\<exists>dst. base64encode_loop s2_zero (base64table_' digits_46) (message_' digits_46 @ [0, 0, 0])
            (encode_bits (int (length (message_' digits_46)))) 0 0 [] = Inr dst \<and>
      4 dvd length dst \<and>
      length (message_' digits_46_encoded) \<le> length dst \<and>
      length dst - length (message_' digits_46_encoded) \<le> 3 \<and>
      message_' digits_46_encoded = take (length (message_' digits_46_encoded)) dst \<and>
      base64table_' digits_46_encoded = base64table_' digits_46)"
proof -
  have h: "base64encode s2_zero digits_46 = Inr digits_46_encoded"
    by code_simp
  have "case base64encode s2_zero digits_46 of
     Inl e \<Rightarrow> e = UndefinedBehaviour
   | Inr st' \<Rightarrow>
       \<exists>dst. base64encode_loop s2_zero (base64table_' digits_46) (message_' digits_46 @ [0, 0, 0])
               (encode_bits (int (length (message_' digits_46)))) 0 0 [] = Inr dst \<and>
             4 dvd length dst \<and>
             length (message_' st') \<le> length dst \<and>
             length dst - length (message_' st') \<le> 3 \<and>
             message_' st' = take (length (message_' st')) dst \<and>
             base64table_' st' = base64table_' digits_46"
    by (rule base64encode_cuts_without_padding)
  then have "\<exists>dst. base64encode_loop s2_zero (base64table_' digits_46) (message_' digits_46 @ [0, 0, 0])
            (encode_bits (int (length (message_' digits_46)))) 0 0 [] = Inr dst \<and>
      4 dvd length dst \<and>
      length (message_' digits_46_encoded) \<le> length dst \<and>
      length dst - length (message_' digits_46_encoded) \<le> 3 \<and>
      message_' digits_46_encoded = take (length (message_' digits_46_encoded)) dst \<and>
      base64table_' digits_46_encoded = base64table_' digits_46"
    by (simp only: h sum.case)
  with h show ?thesis
    by (rule conjI)
qed

theorem base64encode_not_padded:
  "base64encode s2_zero \<lparr>message_' = replicate 46 49, base64table_' = built_table\<rparr> =
     Inr \<lparr>message_' = concat (replicate 17 [48, 120, 120, 120]) @ [48],
          base64table_' = built_table\<rparr> \<and>
   length (concat (replicate 17 [48, 120, 120, 120 :: byte]) @ [48]) = 69 \<and>
   count_list (concat (replicate 17 [48, 120, 120, 120 :: byte]) @ [48]) 61 = 0"
  by code_simp

subsection \<open>\<open>base64decode\<close>\<close>

text \<open>
  The loop returns when all of its reads stay inside the buffer and its terminator: each
  of the \<open>n\<close> rounds reads five characters.
\<close>

lemma at_read_ok: "pos \<le> length s \<Longrightarrow> \<exists>c. at_read s pos = Inr c"
  by (simp add: at_read_def)

lemma base64decode_loop_returns:
  "si + 5 * n \<le> length src + 1 \<Longrightarrow> bits \<le> done' + 24 * int n \<Longrightarrow>
   \<exists>dst'. base64decode_loop tbl src bits done' si dst = Inr dst'"
proof (induction n arbitrary: done' si dst)
  case 0
  then show ?case by simp
next
  case (Suc n)
  show ?case
  proof (cases "done' < bits")
    case False
    then show ?thesis by simp
  next
    case True
    from Suc.prems(1) obtain c0 c1 c2 c3 c4 where
      rd: "at_read src si = Inr c0" "at_read src (si + 1) = Inr c1"
        "at_read src (si + 2) = Inr c2" "at_read src (si + 3) = Inr c3"
        "at_read src (si + 4) = Inr c4"
      using at_read_ok [of si src] at_read_ok [of "si + 1" src] at_read_ok [of "si + 2" src]
        at_read_ok [of "si + 3" src] at_read_ok [of "si + 4" src]
      by auto
    have "(si + 5) + 5 * n \<le> length src + 1" "bits \<le> (done' + 24) + 24 * int n"
      using Suc.prems by simp_all
    from Suc.IH [OF this] show ?thesis
      using True rd by (subst base64decode_loop.simps) (simp add: Let_def)
  qed
qed

lemma base64decode_returns:
  assumes "message_' st \<noteq> []"
    and "5 * ((length (message_' st) + 3) div 4) \<le> length (message_' st) + 5"
  shows "\<exists>st'. base64decode st = Inr st'"
proof -
  define len where "len = length (message_' st)"
  define n where "n = (len + 3) div 4"
  have len1: "1 \<le> len" using assms(1) by (cases "message_' st") (simp_all add: len_def)
  have "0 + 5 * n \<le> length (message_' st @ [45, 61, 61, 61]) + 1"
    using assms(2) by (simp add: len_def n_def)
  moreover have "int len * 6 \<le> 0 + 24 * int n"
    unfolding n_def by linarith
  ultimately obtain dst where
    dst: "base64decode_loop (base64table_' st) (message_' st @ [45, 61, 61, 61])
            (int len * 6) 0 0 [] = Inr dst"
    using base64decode_loop_returns by blast
  have nonempty: "take len dst @ replicate (len - length dst) 0 \<noteq> []"
    using len1 by (cases "dst") auto
  have "0 \<le> (int len * 6 + 7) div 8 - 1" using len1 by linarith
  then show ?thesis
    using dst nonempty len1
    by (simp add: base64decode_def Let_def len_def [symmetric] resize_def string_back_def)
qed

text \<open>
  A character that \<open>find\<close> does not find is taken as 255, and the loop uses a character
  only through the value that \<open>find\<close> gives for it: two inputs whose characters have
  the same values, position by position, are decoded alike.
\<close>

lemma find_from_None: "find_from s c pos = None \<longleftrightarrow> c \<notin> set s"
  by (induction s arbitrary: pos) auto

lemma find_uchar_absent:
  assumes "c \<notin> set tbl"
  shows "find_uchar tbl c = 255"
proof -
  have "find_from tbl c 0 = None"
    using assms by (simp add: find_from_None)
  then show ?thesis
    by (simp add: find_uchar_def string_find_def)
qed

lemma at_read_same_lookup:
  assumes "map f s1 = map f s2"
  shows "map_sum id f (at_read s1 pos) = map_sum id f (at_read s2 pos)"
proof -
  have len: "length s1 = length s2"
    using assms by (metis length_map)
  show ?thesis
  proof (cases "pos < length s1")
    case True
    then have "f (s1 ! pos) = f (s2 ! pos)"
      using assms len by (metis nth_map)
    with True len show ?thesis by (simp add: at_read_def)
  next
    case False
    with len show ?thesis by (simp add: at_read_def)
  qed
qed

lemma read_step:
  assumes "map_sum id f x = map_sum id f y"
    and "\<And>a b. x = Inr a \<Longrightarrow> y = Inr b \<Longrightarrow> f a = f b \<Longrightarrow> k1 a = k2 b"
  shows "(case x of Inl e \<Rightarrow> Inl e | Inr a \<Rightarrow> k1 a) = (case y of Inl e \<Rightarrow> Inl e | Inr b \<Rightarrow> k2 b)"
  using assms by (cases x; cases y) auto

lemma base64decode_loop_same_lookup:
  assumes "map (find_uchar tbl) src1 = map (find_uchar tbl) src2"
  shows "base64decode_loop tbl src1 bits done' si dst = base64decode_loop tbl src2 bits done' si dst"
  supply base64decode_loop.simps [simp del]
  using assms
proof (induction tbl src1 bits done' si dst rule: base64decode_loop.induct)
  case (1 tbl src1 bits done' si dst)
  note same = at_read_same_lookup [OF "1.prems"]
  let ?f = "find_uchar tbl"
  let ?D = "\<lambda>s0 s1 s2 s3.
    dst @ [narrow (drop_bit 0 (promote s0) OR push_bit 16 (promote s1)),
           narrow (drop_bit 2 (promote s1) OR push_bit 4 (promote s2)),
           narrow (drop_bit 4 (promote s2) OR push_bit 2 (promote s3))]"
  let ?next1 = "base64decode_loop tbl src1 bits (done' + 24) (si + 5)"
  let ?next2 = "base64decode_loop tbl src2 bits (done' + 24) (si + 5)"
  show ?case
  proof (cases "done' < bits")
    case False
    then show ?thesis
      by (simp add: base64decode_loop.simps [of tbl src1] base64decode_loop.simps [of tbl src2])
  next
    case True
    have body:
      "(case at_read src1 si of Inl e \<Rightarrow> Inl e | Inr c0 \<Rightarrow>
         (case at_read src1 (si + 1) of Inl e \<Rightarrow> Inl e | Inr c1 \<Rightarrow>
           (case at_read src1 (si + 2) of Inl e \<Rightarrow> Inl e | Inr c2 \<Rightarrow>
             (case at_read src1 (si + 3) of Inl e \<Rightarrow> Inl e | Inr c3 \<Rightarrow>
               (case at_read src1 (si + 4) of Inl e \<Rightarrow> Inl e | Inr c4 \<Rightarrow>
                  ?next1 (?D (?f c0) (?f c1) (?f c2) (?f c3))))))) =
       (case at_read src2 si of Inl e \<Rightarrow> Inl e | Inr c0 \<Rightarrow>
         (case at_read src2 (si + 1) of Inl e \<Rightarrow> Inl e | Inr c1 \<Rightarrow>
           (case at_read src2 (si + 2) of Inl e \<Rightarrow> Inl e | Inr c2 \<Rightarrow>
             (case at_read src2 (si + 3) of Inl e \<Rightarrow> Inl e | Inr c3 \<Rightarrow>
               (case at_read src2 (si + 4) of Inl e \<Rightarrow> Inl e | Inr c4 \<Rightarrow>
                  ?next2 (?D (?f c0) (?f c1) (?f c2) (?f c3)))))))"
    proof (rule read_step [where f = ?f], rule same)
      fix a0 b0
      assume r0: "at_read src1 si = Inr a0" and f0: "?f a0 = ?f b0"
      show "(case at_read src1 (si + 1) of Inl e \<Rightarrow> Inl e | Inr c1 \<Rightarrow>
              (case at_read src1 (si + 2) of Inl e \<Rightarrow> Inl e | Inr c2 \<Rightarrow>
                (case at_read src1 (si + 3) of Inl e \<Rightarrow> Inl e | Inr c3 \<Rightarrow>
                  (case at_read src1 (si + 4) of Inl e \<Rightarrow> Inl e | Inr c4 \<Rightarrow>
                     ?next1 (?D (?f a0) (?f c1) (?f c2) (?f c3)))))) =
            (case at_read src2 (si + 1) of Inl e \<Rightarrow> Inl e | Inr c1 \<Rightarrow>
              (case at_read src2 (si + 2) of Inl e \<Rightarrow> Inl e | Inr c2 \<Rightarrow>
                (case at_read src2 (si + 3) of Inl e \<Rightarrow> Inl e | Inr c3 \<Rightarrow>
                  (case at_read src2 (si + 4) of Inl e \<Rightarrow> Inl e | Inr c4 \<Rightarrow>
                     ?next2 (?D (?f b0) (?f c1) (?f c2) (?f c3))))))"
      proof (rule read_step [where f = ?f], rule same)
        fix a1 b1
        assume r1: "at_read src1 (si + 1) = Inr a1" and f1: "?f a1 = ?f b1"
        show "(case at_read src1 (si + 2) of Inl e \<Rightarrow> Inl e | Inr c2 \<Rightarrow>
                (case at_read src1 (si + 3) of Inl e \<Rightarrow> Inl e | Inr c3 \<Rightarrow>
                  (case at_read src1 (si + 4) of Inl e \<Rightarrow> Inl e | Inr c4 \<Rightarrow>
                     ?next1 (?D (?f a0) (?f a1) (?f c2) (?f c3))))) =
              (case at_read src2 (si + 2) of Inl e \<Rightarrow> Inl e | Inr c2 \<Rightarrow>
                (case at_read src2 (si + 3) of Inl e \<Rightarrow> Inl e | Inr c3 \<Rightarrow>
                  (case at_read src2 (si + 4) of Inl e \<Rightarrow> Inl e | Inr c4 \<Rightarrow>
                     ?next2 (?D (?f b0) (?f b1) (?f c2) (?f c3)))))"
        proof (rule read_step [where f = ?f], rule same)
          fix a2 b2
          assume r2: "at_read src1 (si + 2) = Inr a2" and f2: "?f a2 = ?f b2"
          show "(case at_read src1 (si + 3) of Inl e \<Rightarrow> Inl e | Inr c3 \<Rightarrow>
                  (case at_read src1 (si + 4) of Inl e \<Rightarrow> Inl e | Inr c4 \<Rightarrow>
                     ?next1 (?D (?f a0) (?f a1) (?f a2) (?f c3)))) =
                (case at_read src2 (si + 3) of Inl e \<Rightarrow> Inl e | Inr c3 \<Rightarrow>
                  (case at_read src2 (si + 4) of Inl e \<Rightarrow> Inl e | Inr c4 \<Rightarrow>
                     ?next2 (?D (?f b0) (?f b1) (?f b2) (?f c3))))"
          proof (rule read_step [where f = ?f], rule same)
            fix a3 b3
            assume r3: "at_read src1 (si + 3) = Inr a3" and f3: "?f a3 = ?f b3"
            show "(case at_read src1 (si + 4) of Inl e \<Rightarrow> Inl e | Inr c4 \<Rightarrow>
                     ?next1 (?D (?f a0) (?f a1) (?f a2) (?f a3))) =
                  (case at_read src2 (si + 4) of Inl e \<Rightarrow> Inl e | Inr c4 \<Rightarrow>
                     ?next2 (?D (?f b0) (?f b1) (?f b2) (?f b3)))"
            proof (rule read_step [where f = ?f], rule same)
              fix a4 b4
              assume r4: "at_read src1 (si + 4) = Inr a4"
              from "1.IH" [OF True r0 r1 r2 r3 r4 refl refl refl refl refl refl refl "1.prems"]
              show "?next1 (?D (?f a0) (?f a1) (?f a2) (?f a3)) =
                    ?next2 (?D (?f b0) (?f b1) (?f b2) (?f b3))"
                by (simp only: f0 f1 f2 f3)
            qed
          qed
        qed
      qed
    qed
    show ?thesis
      unfolding base64decode_loop.simps [of tbl src1 bits done' si dst]
        base64decode_loop.simps [of tbl src2 bits done' si dst]
      using True body by (simp only: if_True Let_def)
  qed
qed

lemma base64decode_loop_error:
  "base64decode_loop tbl src bits done' si dst = Inl e \<Longrightarrow> e = UndefinedBehaviour"
  supply base64decode_loop.simps [simp del]
proof (induction tbl src bits done' si dst rule: base64decode_loop.induct)
  case (1 tbl src bits done' si dst)
  show ?case
  proof (cases "done' < bits")
    case False
    with "1.prems" show ?thesis by (simp add: base64decode_loop.simps)
  next
    case True
    show ?thesis
      using "1.prems" True "1.IH"
      by (subst (asm) base64decode_loop.simps)
         (auto simp: Let_def split: sum.splits dest: at_read_error)
  qed
qed

lemma base64decode_same_lookup:
  assumes "map (find_uchar (base64table_' st)) m = map (find_uchar (base64table_' st)) (message_' st)"
  shows "base64decode (st\<lparr>message_' := m\<rparr>) = base64decode st"
  supply base64decode_loop.simps [simp del]
proof -
  have len: "length m = length (message_' st)"
    using assms by (metis length_map)
  have "map (find_uchar (base64table_' st)) (m @ [45, 61, 61, 61]) =
        map (find_uchar (base64table_' st)) (message_' st @ [45, 61, 61, 61])"
    using assms by simp
  then have loop: "base64decode_loop (base64table_' st) (m @ [45, 61, 61, 61]) bits done' si dst =
      base64decode_loop (base64table_' st) (message_' st @ [45, 61, 61, 61]) bits done' si dst"
    for bits done' si dst
    by (rule base64decode_loop_same_lookup)
  show ?thesis
    by (simp add: base64decode_def Let_def len loop split: sum.splits)
qed

text \<open>
  Claim C7, as the code has it. The claim reads: \<open>base64decode\<close> fails with
  \<open>InvalidCharacter\<close> on a character outside the alphabet and with \<open>InvalidLength\<close>
  on a length that is not a positive multiple of 4. The code checks neither: \<open>find\<close>
  returns \<open>npos\<close> for a character that is not in the table, which is stored as 255 and
  decoded like any other value, and the length is only used to count the rounds.

  For every non-empty input of length \<open>L\<close> with \<open>5 * ((L + 3) div 4) \<le> L + 5\<close> (the
  lengths 1 to 8, 10 to 12, 15, 16 and 20, on which the reads stay inside the buffer),
  whatever its characters, \<open>base64decode\<close> returns a result; a character that is not
  in the table is looked up as 255; and the outcome depends on the characters of the
  input only through the values they are looked up as.
\<close>

theorem base64decode_accepts_any_input:
  assumes "message_' st \<noteq> []"
    and "5 * ((length (message_' st) + 3) div 4) \<le> length (message_' st) + 5"
  shows "(\<exists>st'. base64decode st = Inr st') \<and>
    (\<forall>c. c \<notin> set (base64table_' st) \<longrightarrow> find_uchar (base64table_' st) c = 255) \<and>
    (\<forall>m. map (find_uchar (base64table_' st)) m =
           map (find_uchar (base64table_' st)) (message_' st) \<longrightarrow>
         base64decode (st\<lparr>message_' := m\<rparr>) = base64decode st)"
  using base64decode_returns [OF assms] find_uchar_absent base64decode_same_lookup
  by blast

text \<open>
  In the witness the input is \<open>!!!!\<close> (33): none of its characters is in the table, each
  is looked up as 255, and \<open>####\<close> (35) is decoded to the same result.
\<close>

theorem base64decode_accepts_any_input_witness:
  "message_' bangs \<noteq> [] \<and>
   5 * ((length (message_' bangs) + 3) div 4) \<le> length (message_' bangs) + 5 \<and>
   (\<exists>st'. base64decode bangs = Inr st') \<and>
   find_uchar (base64table_' bangs) 33 = 255 \<and>
   base64decode (bangs\<lparr>message_' := [35, 35, 35, 35]\<rparr>) = base64decode bangs"
proof -
  have h1: "message_' bangs \<noteq> []"
    by (simp add: bangs_def)
  have h2: "5 * ((length (message_' bangs) + 3) div 4) \<le> length (message_' bangs) + 5"
    by (simp add: bangs_def)
  have h3: "33 \<notin> set (base64table_' bangs)"
    by code_simp
  have h4: "map (find_uchar (base64table_' bangs)) [35, 35, 35, 35] =
            map (find_uchar (base64table_' bangs)) (message_' bangs)"
    by code_simp
  from base64decode_accepts_any_input [OF h1 h2] h1 h2 h3 h4 show ?thesis
    by blast
qed

text \<open>
  The claim as it is written fails on the four characters \<open>!!!!\<close> (33), none of which
  is in the table: the code returns the two bytes 255, 255. It fails as well on the
  single character \<open>B\<close>, whose length is not a multiple of 4: the code returns the empty
  message.
\<close>

theorem base64decode_does_not_validate:
  "spec_InvalidCharacter built_table [33, 33, 33, 33] \<and>
   base64decode \<lparr>message_' = [33, 33, 33, 33], base64table_' = built_table\<rparr> =
     Inr \<lparr>message_' = [255, 255], base64table_' = built_table\<rparr> \<and>
   spec_InvalidLength [66] \<and>
   base64decode \<lparr>message_' = [66], base64table_' = built_table\<rparr> =
     Inr \<lparr>message_' = [], base64table_' = built_table\<rparr>"
  by code_simp

lemma base64decode_outcome:
  assumes "message_' st \<noteq> []"
  shows "case base64decode st of
     Inl e \<Rightarrow> e = UndefinedBehaviour
   | Inr st' \<Rightarrow>
       \<exists>dst. base64decode_loop (base64table_' st) (message_' st @ [45, 61, 61, 61])
               (int (length (message_' st)) * 6) 0 0 [] = Inr dst \<and>
             message_' st' =
               butlast (take (nat ((int (length (message_' st)) * 6 + 7) div 8))
                 (take (length (message_' st)) dst @ replicate (length (message_' st) - length dst) 0)) \<and>
             int (length (message_' st')) = (int (length (message_' st)) * 6 + 7) div 8 - 1 \<and>
             base64table_' st' = base64table_' st"
  supply base64decode_loop.simps [simp del]
proof -
  define len where "len = length (message_' st)"
  define run where "run = base64decode_loop (base64table_' st) (message_' st @ [45, 61, 61, 61])
               (int len * 6) 0 0 []"
  define k where "k = nat ((int len * 6 + 7) div 8)"
  have len1: "1 \<le> len" using assms by (cases "message_' st") (simp_all add: len_def)
  have k1: "1 \<le> k" "k \<le> len" "(int len * 6 + 7) div 8 - 1 = int (k - 1)"
    using len1 unfolding k_def by linarith+
  have dec: "base64decode st =
     (case run of
        Inl e \<Rightarrow> Inl e
      | Inr dst \<Rightarrow>
         (case resize dst (int len) 0 of
            Inl e \<Rightarrow> Inl e
          | Inr dst1 \<Rightarrow>
             (case string_back dst1 of
                Inl e \<Rightarrow> Inl e
              | Inr b \<Rightarrow>
                 (case resize dst1 ((int len * 6 + 7) div 8 - 1) 0 of
                    Inl e \<Rightarrow> Inl e
                  | Inr dst2 \<Rightarrow> Inr (st\<lparr>message_' := dst2\<rparr>)))))"
    unfolding base64decode_def Let_def run_def len_def by (rule refl)
  have "case base64decode st of
     Inl e \<Rightarrow> e = UndefinedBehaviour
   | Inr st' \<Rightarrow>
       \<exists>dst. run = Inr dst \<and>
             message_' st' =
               butlast (take k (take len dst @ replicate (len - length dst) 0)) \<and>
             int (length (message_' st')) = (int len * 6 + 7) div 8 - 1 \<and>
             base64table_' st' = base64table_' st"
  proof (cases run)
    case (Inl e)
    then have "e = UndefinedBehaviour"
      unfolding run_def by (rule base64decode_loop_error)
    moreover have "base64decode st = Inl e"
      by (simp only: dec Inl sum.case)
    ultimately show ?thesis by simp
  next
    case (Inr dst)
    define dst1 where "dst1 = take len dst @ replicate (len - length dst) 0"
    have l1: "length dst1 = len" by (simp add: dst1_def)
    have ne: "dst1 \<noteq> []" using l1 len1 by auto
    have r1: "resize dst (int len) 0 = Inr dst1" by (simp add: resize_def dst1_def)
    have bk: "string_back dst1 = Inr (last dst1)" using ne by (simp add: string_back_def)
    have nk: "nat (int k - 1) = k - 1"
      using k1 by linarith
    have r2: "resize dst1 ((int len * 6 + 7) div 8 - 1) 0 = Inr (butlast (take k dst1))"
      unfolding k1(3) using k1(1,2) l1 by (simp add: resize_def butlast_take nk)
    have res: "base64decode st = Inr (st\<lparr>message_' := butlast (take k dst1)\<rparr>)"
      by (simp only: dec Inr r1 bk r2 sum.case)
    have "length (butlast (take k dst1)) = k - 1" using k1(1,2) l1 by simp
    then have lk: "int (length (butlast (take k dst1))) = (int len * 6 + 7) div 8 - 1"
      by (simp only: k1(3))
    have "\<exists>d. run = Inr d \<and>
             message_' (st\<lparr>message_' := butlast (take k dst1)\<rparr>) =
               butlast (take k (take len d @ replicate (len - length d) 0)) \<and>
             int (length (message_' (st\<lparr>message_' := butlast (take k dst1)\<rparr>))) =
               (int len * 6 + 7) div 8 - 1 \<and>
             base64table_' (st\<lparr>message_' := butlast (take k dst1)\<rparr>) = base64table_' st"
    proof (intro exI conjI)
      show "run = Inr dst" by (rule Inr)
      show "message_' (st\<lparr>message_' := butlast (take k dst1)\<rparr>) =
            butlast (take k (take len dst @ replicate (len - length dst) 0))"
        by (simp add: dst1_def)
      show "int (length (message_' (st\<lparr>message_' := butlast (take k dst1)\<rparr>))) =
            (int len * 6 + 7) div 8 - 1"
        using lk by simp
      show "base64table_' (st\<lparr>message_' := butlast (take k dst1)\<rparr>) = base64table_' st"
        by simp
    qed
    then show ?thesis
      by (simp only: res sum.case)
  qed
  then show ?thesis
    unfolding run_def k_def len_def .
qed

text \<open>
  Claim C10: on a non-empty input, \<open>base64decode\<close> removes the last byte of its output
  whether or not that byte is zero, so that the result is one byte shorter than the
  decoded length \<open>dst_len = (bits + 7) / 8\<close> it has computed. The \<open>if\<close> that tests
  \<open>dst.back() == 0\<close> ends at its semicolon, and \<open>dst.resize(dst_len - 1)\<close> is executed
  in every run.

  For every non-empty input, \<open>base64decode\<close> either stops at a read outside the
  buffer, or returns the output of its loop, brought to the length of the input by
  \<open>dst.resize(len)\<close>, cut to its first \<open>dst_len\<close> bytes and without the last of these,
  whatever that byte is.
\<close>

theorem base64decode_strips_last_byte:
  assumes "message_' st \<noteq> []"
  shows "case base64decode st of
     Inl e \<Rightarrow> e = UndefinedBehaviour
   | Inr st' \<Rightarrow>
       \<exists>dst. base64decode_loop (base64table_' st) (message_' st @ [45, 61, 61, 61])
               (int (length (message_' st)) * 6) 0 0 [] = Inr dst \<and>
             message_' st' =
               butlast (take (nat ((int (length (message_' st)) * 6 + 7) div 8))
                 (take (length (message_' st)) dst @ replicate (length (message_' st) - length dst) 0)) \<and>
             int (length (message_' st')) = (int (length (message_' st)) * 6 + 7) div 8 - 1 \<and>
             base64table_' st' = base64table_' st"
  using assms by (rule base64decode_outcome)

text \<open>
  In the witness the input is \<open>BBB\<close>: the loop returns the bytes 1, 16, 252, of which
  \<open>dst_len = 3\<close>, and the result is 1, 16: the byte that is removed is not zero.
\<close>

theorem base64decode_strips_last_byte_witness:
  "message_' letters_BBB \<noteq> [] \<and>
   base64decode letters_BBB = Inr (letters_BBB\<lparr>message_' := [1, 16]\<rparr>) \<and>
   base64decode_loop (base64table_' letters_BBB) (message_' letters_BBB @ [45, 61, 61, 61])
     (int (length (message_' letters_BBB)) * 6) 0 0 [] = Inr [1, 16, 252] \<and>
   (\<exists>dst. base64decode_loop (base64table_' letters_BBB) (message_' letters_BBB @ [45, 61, 61, 61])
            (int (length (message_' letters_BBB)) * 6) 0 0 [] = Inr dst \<and>
      message_' (letters_BBB\<lparr>message_' := [1, 16]\<rparr>) =
        butlast (take (nat ((int (length (message_' letters_BBB)) * 6 + 7) div 8))
          (take (length (message_' letters_BBB)) dst @
           replicate (length (message_' letters_BBB) - length dst) 0)) \<and>
      int (length (message_' (letters_BBB\<lparr>message_' := [1, 16]\<rparr>))) =
        (int (length (message_' letters_BBB)) * 6 + 7) div 8 - 1 \<and>
      base64table_' (letters_BBB\<lparr>message_' := [1, 16]\<rparr>) = base64table_' letters_BBB)"
proof -
  have h1: "message_' letters_BBB \<noteq> []"
    by (simp add: letters_BBB_def)
  have h2: "base64decode letters_BBB = Inr (letters_BBB\<lparr>message_' := [1, 16]\<rparr>)"
    by code_simp
  have h3: "base64decode_loop (base64table_' letters_BBB) (message_' letters_BBB @ [45, 61, 61, 61])
     (int (length (message_' letters_BBB)) * 6) 0 0 [] = Inr [1, 16, 252]"
    by code_simp
  have "case base64decode letters_BBB of
     Inl e \<Rightarrow> e = UndefinedBehaviour
   | Inr st' \<Rightarrow>
       \<exists>dst. base64decode_loop (base64table_' letters_BBB) (message_' letters_BBB @ [45, 61, 61, 61])
               (int (length (message_' letters_BBB)) * 6) 0 0 [] = Inr dst \<and>
             message_' st' =
               butlast (take (nat ((int (length (message_' letters_BBB)) * 6 + 7) div 8))
                 (take (length (message_' letters_BBB)) dst @
                  replicate (length (message_' letters_BBB) - length dst) 0)) \<and>
             int (length (message_' st')) = (int (length (message_' letters_BBB)) * 6 + 7) div 8 - 1 \<and>
             base64table_' st' = base64table_' letters_BBB"
    using h1 by (rule base64decode_strips_last_byte)
  then have "\<exists>dst. base64decode_loop (base64table_' letters_BBB) (message_' letters_BBB @ [45, 61, 61, 61])
            (int (length (message_' letters_BBB)) * 6) 0 0 [] = Inr dst \<and>
      message_' (letters_BBB\<lparr>message_' := [1, 16]\<rparr>) =
        butlast (take (nat ((int (length (message_' letters_BBB)) * 6 + 7) div 8))
          (take (length (message_' letters_BBB)) dst @
           replicate (length (message_' letters_BBB) - length dst) 0)) \<and>
      int (length (message_' (letters_BBB\<lparr>message_' := [1, 16]\<rparr>))) =
        (int (length (message_' letters_BBB)) * 6 + 7) div 8 - 1 \<and>
      base64table_' (letters_BBB\<lparr>message_' := [1, 16]\<rparr>) = base64table_' letters_BBB"
    by (simp only: h2 sum.case)
  with h1 h2 h3 show ?thesis
    by (intro conjI)
qed

subsection \<open>The pipeline\<close>

text \<open>
  Claim C1 (round trip: decoding the encoding of a message gives the message back).
  \<open>encode\<close> never returns, whatever the message, the table and the value of \<open>s2\<close>:
  its second stage throws; and \<open>decode\<close> never returns either, for the same reason. On
  the header comment's own test pattern, \<open>Hello, World!\<close>, the first stage of
  \<open>encode\<close> succeeds and the exception of the second stage ends the run.
\<close>

theorem encode_never_returns:
  "isl (encode s2_at st) \<and> isl (decode st) \<and>
   encode s2_at \<lparr>message_' = hello_world, base64table_' = tbl\<rparr> = Inl out_of_range"
proof (intro conjI)
  show "isl (encode s2_at st)"
    by (simp add: encode_def xor_head_with_tail_throws split: sum.split)
  show "isl (decode st)"
    by (simp add: decode_def xor_head_with_tail_throws split: sum.split)
  have "duffs_device kDuffsMask hello_world =
          Inr [72, 29, 126, 88, 57, 84, 50, 99, 57, 10, 108, 100, 33]"
    by (simp add: duffs_device_def hello_world_def kDuffsMask_def narrow_def
        switch_label_def duffs_loop.simps at_xor_inside)
  then show "encode s2_at \<lparr>message_' = hello_world, base64table_' = tbl\<rparr> = Inl out_of_range"
    by (simp add: encode_def xor_head_with_tail_throws)
qed

end
